theory Spec2Isabelle
  imports Main "HOL-Library.AList"
begin

section \<open>Characters and strings\<close>

text \<open>
  The source works on JavaScript strings. A text is modelled as a \<open>string\<close>, each
  \<open>char\<close> standing for the code unit of the same number (0 to 255, the Latin-1 range).
  The character classes of \<open>_SELECTOR_REGEXP\<close> (no \<open>i\<close> and no \<open>u\<close> flag) and
  \<open>String.prototype.toLowerCase\<close> are written out for that range.
\<close>

definition isWordChar :: "char \<Rightarrow> bool" where
  \<comment> \<open>the class \<open>\w\<close>: \<open>[A-Za-z0-9_]\<close>\<close>
  "isWordChar c =
     (let n = (of_char c :: nat)
      in (65 \<le> n \<and> n \<le> 90) \<or> (97 \<le> n \<and> n \<le> 122) \<or> (48 \<le> n \<and> n \<le> 57) \<or> n = 95)"

definition isTagChar :: "char \<Rightarrow> bool" where
  \<comment> \<open>the class \<open>[-\w]\<close>\<close>
  "isTagChar c = (c = CHR ''-'' \<or> isWordChar c)"

definition isAttrNameChar :: "char \<Rightarrow> bool" where
  \<comment> \<open>the class \<open>[-.\w*\\$]\<close>\<close>
  "isAttrNameChar c =
     (c = CHR ''-'' \<or> c = CHR ''.'' \<or> isWordChar c \<or> c = CHR ''*'' \<or> c = CHR 0x5C \<or> c = CHR ''$'')"

definition isQuote :: "char \<Rightarrow> bool" where
  \<comment> \<open>the class \<open>["']\<close>\<close>
  "isQuote c = (c = CHR 0x22 \<or> c = CHR 0x27)"

definition isAttrValueChar :: "char \<Rightarrow> bool" where
  \<comment> \<open>the class \<open>[^\]"']\<close>\<close>
  "isAttrValueChar c = (c \<noteq> CHR '']'' \<and> \<not> isQuote c)"

definition isSpace :: "char \<Rightarrow> bool" where
  \<comment> \<open>the class \<open>\s\<close> below code unit 256: tab, line feed, vertical tab, form feed,
      carriage return, space and no-break space\<close>
  "isSpace c =
     (let n = (of_char c :: nat) in (9 \<le> n \<and> n \<le> 13) \<or> n = 32 \<or> n = 160)"

definition toLowerCaseChar :: "char \<Rightarrow> char" where
  \<comment> \<open>\<open>A\<close> to \<open>Z\<close>, and the Latin-1 capitals 0xC0 to 0xDE except the multiplication sign 0xD7\<close>
  "toLowerCaseChar c =
     (let n = (of_char c :: nat)
      in if (65 \<le> n \<and> n \<le> 90) \<or> (192 \<le> n \<and> n \<le> 222 \<and> n \<noteq> 215) then char_of (n + 32) else c)"

definition toLowerCase :: "string \<Rightarrow> string" where
  "toLowerCase s = map toLowerCaseChar s"

section \<open>The selector regular expression\<close>

text \<open>
  One successful \<open>_SELECTOR_REGEXP.exec\<close> sets the groups of exactly one of the five
  alternatives of the pattern, so a match is a tagged union named after the group
  constants of the source:
  \<^item> \<open>NOT\<close>: group 1, the text \<open>:not(\<close>;
  \<^item> \<open>TAG tag prefix\<close>: groups 2 and 3, \<open>tag\<close> includes the prefix;
  \<^item> \<open>ATTRIBUTE name value\<close>: groups 4 and 6, \<open>value\<close> is \<open>None\<close> when the
    optional \<open>=...\<close> part did not take part in the match (\<open>undefined\<close> in the source);
  \<^item> \<open>NOT_END\<close>: group 7, the text \<open>)\<close>;
  \<^item> \<open>SEPARATOR\<close>: group 8, a comma with the white space around it.
\<close>

datatype regexp_match =
    NOT
  | TAG string string
  | ATTRIBUTE string "string option"
  | NOT_END
  | SEPARATOR

text \<open>
  Each alternative is tried at the front of the remaining text and returns the match with
  the text after it. Every repetition of the pattern is greedy and is followed by a
  character outside its class, so the longest run is the only one that can succeed:
  giving characters back never helps.
\<close>

fun match_not :: "string \<Rightarrow> (regexp_match \<times> string) option" where
  \<comment> \<open>\<open>(\:not\()\<close>\<close>
  "match_not (a # b # c # d # e # r) =
     (if [a, b, c, d, e] = '':not('' then Some (NOT, r) else None)"
| "match_not _ = None"

definition match_tag :: "string \<Rightarrow> (regexp_match \<times> string) option" where
  \<comment> \<open>\<open>(([\.\#]?)[-\w]+)\<close>: with the prefix left out the run would have to start at the
      prefix character, which is not in \<open>[-\w]\<close>\<close>
  "match_tag s =
     (let (prefix, r) =
            (case s of
               c # r' \<Rightarrow> if c = CHR ''.'' \<or> c = CHR ''#'' then ([c], r') else ([], s)
             | [] \<Rightarrow> ([], s));
          name = takeWhile isTagChar r
      in if name = [] then None else Some (TAG (prefix @ name) prefix, dropWhile isTagChar r))"

definition match_attribute_value :: "string \<Rightarrow> (string \<times> string) option" where
  \<comment> \<open>\<open>(["']?)([^\]"']*)\5\]\<close> after the \<open>=\<close>: with an opening quote the value must be
      followed by the same quote; with the quote left out the value is empty (the quote is
      not a value character) and \<open>]\<close> does not follow\<close>
  "match_attribute_value s =
     (case s of
        q # r \<Rightarrow>
          if isQuote q then
            (case dropWhile isAttrValueChar r of
               q' # b # r' \<Rightarrow>
                 if q' = q \<and> b = CHR '']'' then Some (takeWhile isAttrValueChar r, r') else None
             | _ \<Rightarrow> None)
          else
            (case dropWhile isAttrValueChar s of
               b # r' \<Rightarrow> if b = CHR '']'' then Some (takeWhile isAttrValueChar s, r') else None
             | [] \<Rightarrow> None)
      | [] \<Rightarrow> None)"

definition match_attribute :: "string \<Rightarrow> (regexp_match \<times> string) option" where
  \<comment> \<open>\<open>(?:\[([-.\w*\\$]+)(?:=(["']?)([^\]"']*)\5)?\])\<close>\<close>
  "match_attribute s =
     (case s of
        b # r \<Rightarrow>
          if b = CHR ''['' then
            (let name = takeWhile isAttrNameChar r
             in if name = [] then None
                else
                  (case dropWhile isAttrNameChar r of
                     e # r1 \<Rightarrow>
                       if e = CHR ''='' then
                         (case match_attribute_value r1 of
                            Some (v, r2) \<Rightarrow> Some (ATTRIBUTE name (Some v), r2)
                          | None \<Rightarrow> None)
                       else if e = CHR '']'' then Some (ATTRIBUTE name None, r1)
                       else None
                   | [] \<Rightarrow> None))
          else None
      | [] \<Rightarrow> None)"

fun match_not_end :: "string \<Rightarrow> (regexp_match \<times> string) option" where
  \<comment> \<open>\<open>(\))\<close>\<close>
  "match_not_end (c # r) = (if c = CHR '')'' then Some (NOT_END, r) else None)"
| "match_not_end [] = None"

definition match_separator :: "string \<Rightarrow> (regexp_match \<times> string) option" where
  \<comment> \<open>\<open>(\s*,\s*)\<close>\<close>
  "match_separator s =
     (case dropWhile isSpace s of
        c # r \<Rightarrow> if c = CHR '','' then Some (SEPARATOR, dropWhile isSpace r) else None
      | [] \<Rightarrow> None)"

definition match_here :: "string \<Rightarrow> (regexp_match \<times> string) option" where
  \<comment> \<open>the alternatives in the order of the pattern\<close>
  "match_here s =
     (case match_not s of
        Some m \<Rightarrow> Some m
      | None \<Rightarrow>
          (case match_tag s of
             Some m \<Rightarrow> Some m
           | None \<Rightarrow>
               (case match_attribute s of
                  Some m \<Rightarrow> Some m
                | None \<Rightarrow>
                    (case match_not_end s of
                       Some m \<Rightarrow> Some m
                     | None \<Rightarrow> match_separator s))))"

text \<open>
  \<open>exec\<close> on a global pattern searches from \<open>lastIndex\<close> for the first position with
  a match and moves \<open>lastIndex\<close> behind it. The argument is the text from \<open>lastIndex\<close>
  on, the result holds the text from the new \<open>lastIndex\<close> on; \<open>None\<close> is the
  \<open>null\<close> that ends the loop of \<open>parse\<close>. No alternative matches the empty text.
\<close>

fun exec :: "string \<Rightarrow> (regexp_match \<times> string) option" where
  "exec [] = None"
| "exec (c # s) = (case match_here (c # s) of Some m \<Rightarrow> Some m | None \<Rightarrow> exec s)"


section \<open>CssSelector\<close>

text \<open>
  The class \<open>CssSelector\<close>. \<open>element\<close> is \<open>None\<close> for \<open>null\<close>. The array
  \<open>attrs\<close> holds names at its even and values at its odd places; \<open>addAttribute\<close>, its
  only writer, pushes a name and a value together, and every reader steps by two, so the
  array is kept as the list of its (name, value) pairs.
\<close>

datatype CssSelector =
  CssSelector
    (element: "string option")
    (classNames: "string list")
    (attrs: "(string \<times> string) list")
    (notSelectors: "CssSelector list")

definition new_CssSelector :: CssSelector where
  "new_CssSelector = CssSelector None [] [] []"

datatype error =
    NestingNot
    \<comment> \<open>\<open>Nesting :not in a selector is not allowed\<close>\<close>
  | MultipleSelectorsInNot
    \<comment> \<open>\<open>Multiple selectors in :not are not supported\<close>\<close>
  | UnescapedDollar string
    \<comment> \<open>\<open>Error in attribute selector "...". Unescaped "$" is not supported.\<close>\<close>

fun unescapeLoop :: "string \<Rightarrow> string \<Rightarrow> bool \<Rightarrow> string \<Rightarrow> error + string" where
  \<comment> \<open>the loop of \<open>unescapeAttribute\<close>: the whole attribute (for the message), the
      characters left, \<open>escaping\<close> and \<open>result\<close>\<close>
  "unescapeLoop attr [] escaping result = Inr result"
| "unescapeLoop attr (c # cs) escaping result =
     (if c = CHR 0x5C then unescapeLoop attr cs True result
      else if c = CHR ''$'' \<and> \<not> escaping then Inl (UnescapedDollar attr)
      else unescapeLoop attr cs False (result @ [c]))"

definition unescapeAttribute :: "string \<Rightarrow> error + string" where
  "unescapeAttribute attr = unescapeLoop attr attr False []"

definition escapeAttribute :: "string \<Rightarrow> string" where
  \<comment> \<open>\<open>attr.replace(/\\/g, '\\\\').replace(/\$/g, '\\$')\<close>\<close>
  "escapeAttribute attr =
     concat (map (\<lambda>c. if c = CHR ''$'' then [CHR 0x5C, CHR ''$''] else [c])
       (concat (map (\<lambda>c. if c = CHR 0x5C then [CHR 0x5C, CHR 0x5C] else [c]) attr)))"

definition truthy :: "string option \<Rightarrow> bool" where
  \<comment> \<open>a string or \<open>null\<close> used as a condition: neither \<open>null\<close> nor empty\<close>
  "truthy x = (case x of None \<Rightarrow> False | Some s \<Rightarrow> s \<noteq> [])"

definition setElement :: "string \<Rightarrow> CssSelector \<Rightarrow> CssSelector" where
  "setElement e c = CssSelector (Some e) (classNames c) (attrs c) (notSelectors c)"

definition addAttribute :: "string \<Rightarrow> string option \<Rightarrow> CssSelector \<Rightarrow> CssSelector" where
  \<comment> \<open>\<open>value\<close> defaults to \<open>''\<close> when it is \<open>undefined\<close>;
      \<open>value && value.toLowerCase() || ''\<close>\<close>
  "addAttribute name v c =
     (let value = (case v of None \<Rightarrow> [] | Some w \<Rightarrow> w)
      in CssSelector (element c) (classNames c)
           (attrs c @ [(name, if value \<noteq> [] \<and> toLowerCase value \<noteq> [] then toLowerCase value else [])])
           (notSelectors c))"

definition addClassName :: "string \<Rightarrow> CssSelector \<Rightarrow> CssSelector" where
  "addClassName name c =
     CssSelector (element c) (classNames c @ [toLowerCase name]) (attrs c) (notSelectors c)"

fun toString :: "CssSelector \<Rightarrow> string" where
  "toString (CssSelector el cls ats nots) =
     (case el of None \<Rightarrow> [] | Some e \<Rightarrow> e)
     @ concat (map (\<lambda>klass. ''.'' @ klass) cls)
     @ concat (map (\<lambda>(name, value).
         ''['' @ escapeAttribute name @ (if value \<noteq> [] then ''='' @ value else []) @ '']'') ats)
     @ concat (map (\<lambda>notSelector. '':not('' @ toString notSelector @ '')'') nots)"

fun selectorsToString :: "CssSelector list \<Rightarrow> string" where
  \<comment> \<open>an array of selectors as a string: \<open>Array.prototype.join\<close> with a comma\<close>
  "selectorsToString [] = []"
| "selectorsToString [c] = toString c"
| "selectorsToString (c # d # cs) = toString c @ '','' @ selectorsToString (d # cs)"

section \<open>CssSelector.parse\<close>

text \<open>
  The variables of \<open>parse\<close>. \<open>current\<close> is an alias: it is \<open>cssSelector\<close> itself
  while \<open>inNot\<close> is false, and the selector pushed last on \<open>cssSelector.notSelectors\<close>
  while \<open>inNot\<close> is true (the two are set together at \<open>:not(\<close>, at \<open>)\<close> and at a
  separator). A write through \<open>current\<close> is therefore a write to one of these two places.
\<close>

record parse_state =
  results :: "CssSelector list"
  cssSelector :: CssSelector
  inNot :: bool

definition on_current :: "(CssSelector \<Rightarrow> CssSelector) \<Rightarrow> parse_state \<Rightarrow> parse_state" where
  "on_current f st =
     (if inNot st then
        (let c = cssSelector st; ns = notSelectors c
         in st\<lparr>cssSelector :=
              CssSelector (element c) (classNames c) (attrs c)
                (case ns of [] \<Rightarrow> [] | _ \<Rightarrow> butlast ns @ [f (last ns)])\<rparr>)
      else st\<lparr>cssSelector := f (cssSelector st)\<rparr>)"

definition addResult :: "CssSelector list \<Rightarrow> CssSelector \<Rightarrow> CssSelector list" where
  \<comment> \<open>\<open>_addResult\<close>\<close>
  "addResult res cssSel =
     (if length (notSelectors cssSel) > 0 \<and> \<not> truthy (element cssSel)
         \<and> length (classNames cssSel) = 0 \<and> length (attrs cssSel) = 0
      then res @ [CssSelector (Some ''*'') (classNames cssSel) (attrs cssSel) (notSelectors cssSel)]
      else res @ [cssSel])"

definition parse_step :: "regexp_match \<Rightarrow> parse_state \<Rightarrow> error + parse_state" where
  \<comment> \<open>the body of the \<open>while\<close> loop for one match\<close>
  "parse_step m st =
     (case m of
        NOT \<Rightarrow>
          if inNot st then Inl NestingNot
          else
            (let c = cssSelector st
             in Inr (st\<lparr>inNot := True,
                       cssSelector := CssSelector (element c) (classNames c) (attrs c)
                                        (notSelectors c @ [new_CssSelector])\<rparr>))
      | TAG tag prefix \<Rightarrow>
          if prefix = ''#'' then Inr (on_current (addAttribute ''id'' (Some (drop 1 tag))) st)
          else if prefix = ''.'' then Inr (on_current (addClassName (drop 1 tag)) st)
          else Inr (on_current (setElement tag) st)
      | ATTRIBUTE attribute v \<Rightarrow>
          (case unescapeAttribute attribute of
             Inl e \<Rightarrow> Inl e
           | Inr name \<Rightarrow> Inr (on_current (addAttribute name v) st))
      | NOT_END \<Rightarrow> Inr (st\<lparr>inNot := False\<rparr>)
      | SEPARATOR \<Rightarrow>
          if inNot st then Inl MultipleSelectorsInNot
          else Inr (st\<lparr>results := addResult (results st) (cssSelector st),
                       cssSelector := new_CssSelector\<rparr>))"


text \<open>Every match consumes at least one character, so the loop of \<open>parse\<close> ends.\<close>

lemma length_dropWhile_le_Suc: "length (dropWhile P s) < Suc (length s)"
  by (simp add: length_dropWhile_le less_Suc_eq_le)

lemma match_not_shorter: "match_not s = Some (m, r) \<Longrightarrow> length r < length s"
  by (induction s rule: match_not.induct) (auto split: if_splits)

lemma match_tag_shorter: "match_tag s = Some (m, r) \<Longrightarrow> length r < length s"
proof -
  assume a: "match_tag s = Some (m, r)"
  have nonempty: "takeWhile P t \<noteq> [] \<Longrightarrow> length (dropWhile P t) < length t" for P and t :: string
    by (cases t) (auto simp: length_dropWhile_le_Suc split: if_splits)
  show ?thesis
  proof (cases s)
    case Nil
    with a show ?thesis by (simp add: match_tag_def)
  next
    case (Cons c t)
    show ?thesis
    proof (cases "c = CHR ''.'' \<or> c = CHR ''#''")
      case True
      with a Cons have "r = dropWhile isTagChar t"
        by (auto simp: match_tag_def Let_def split: if_splits)
      then show ?thesis using Cons by (simp add: length_dropWhile_le_Suc)
    next
      case False
      with a Cons have "r = dropWhile isTagChar s" and "takeWhile isTagChar s \<noteq> []"
        by (auto simp: match_tag_def Let_def split: if_splits)
      then show ?thesis using nonempty by blast
    qed
  qed
qed

lemma dropWhile_eq_Cons_shorter: "dropWhile P s = c # r \<Longrightarrow> length r < length s"
proof -
  assume "dropWhile P s = c # r"
  then have "length (dropWhile P s) = Suc (length r)" by simp
  moreover have "length (dropWhile P s) \<le> length s" by (rule length_dropWhile_le)
  ultimately show ?thesis by simp
qed

lemma match_attribute_value_shorter:
  "match_attribute_value s = Some (v, r) \<Longrightarrow> length r < Suc (length s)"
  by (auto simp: match_attribute_value_def split: list.splits if_splits
      dest!: dropWhile_eq_Cons_shorter)

lemma match_attribute_shorter: "match_attribute s = Some (m, r) \<Longrightarrow> length r < length s"
  by (auto simp: match_attribute_def Let_def split: list.splits if_splits option.splits
      dest!: dropWhile_eq_Cons_shorter match_attribute_value_shorter)

lemma match_not_end_shorter: "match_not_end s = Some (m, r) \<Longrightarrow> length r < length s"
  by (cases s) (auto split: if_splits)

lemma match_separator_shorter: "match_separator s = Some (m, r) \<Longrightarrow> length r < length s"
proof -
  assume a: "match_separator s = Some (m, r)"
  then obtain t where t: "dropWhile isSpace s = CHR '','' # t" and r: "r = dropWhile isSpace t"
    by (auto simp: match_separator_def split: list.splits if_splits)
  have "length r \<le> length t" using r by (simp add: length_dropWhile_le)
  moreover have "length t < length s" using t by (rule dropWhile_eq_Cons_shorter)
  ultimately show ?thesis by simp
qed

lemma match_here_shorter: "match_here s = Some (m, r) \<Longrightarrow> length r < length s"
  by (auto simp: match_here_def split: option.splits
      dest: match_not_shorter match_tag_shorter match_attribute_shorter
        match_not_end_shorter match_separator_shorter)

lemma exec_shorter: "exec s = Some (m, r) \<Longrightarrow> length r < length s"
proof (induction s)
  case Nil
  then show ?case by simp
next
  case (Cons c s)
  show ?case
  proof (cases "match_here (c # s)")
    case None
    with Cons show ?thesis by fastforce
  next
    case (Some a)
    with Cons.prems have "match_here (c # s) = Some (m, r)" by simp
    then show ?thesis by (rule match_here_shorter)
  qed
qed

function parse_loop :: "string \<Rightarrow> parse_state \<Rightarrow> error + parse_state" where
  \<comment> \<open>\<open>while (match = _SELECTOR_REGEXP.exec(selector)) { ... }\<close>; the first argument is
      the text from \<open>lastIndex\<close> on\<close>
  "parse_loop s st =
     (case exec s of
        None \<Rightarrow> Inr st
      | Some (m, rest) \<Rightarrow>
          (case parse_step m st of
             Inl e \<Rightarrow> Inl e
           | Inr st' \<Rightarrow> parse_loop rest st'))"
  by pat_completeness auto
termination
  by (relation "measure (\<lambda>(s, st). length s)") (auto dest: exec_shorter)

declare parse_loop.simps [simp del]

definition parse :: "string \<Rightarrow> error + CssSelector list" where
  "parse selector =
     (case parse_loop selector \<lparr>results = [], cssSelector = new_CssSelector, inNot = False\<rparr> of
        Inl e \<Rightarrow> Inl e
      | Inr st \<Rightarrow> Inr (addResult (results st) (cssSelector st)))"


section \<open>SelectorMatcher: the index\<close>

text \<open>
  A \<open>SelectorListContext\<close> is a mutable object shared by reference between the
  \<open>_listContexts\<close> array of the matcher on which \<open>addSelectables\<close> was called and
  the \<open>SelectorContext\<close> entries of that batch, wherever they lie in the tree of
  matchers. The objects live in a store, a list indexed by address, and the matcher and
  its entries hold addresses. Each top-level matcher has a store of its own: the list
  contexts made by \<open>createNotMatcher\<close> are reachable from the not-matcher only.
\<close>

record SelectorListContext =
  selectors :: "CssSelector list"
  alreadyMatched :: bool

text \<open>
  \<open>SelectorContext\<close>: \<open>cbContext\<close> is the opaque object given to \<open>addSelectables\<close>
  (\<open>None\<close> for \<open>null\<close>), \<open>listContext\<close> the address of the shared list context
  (\<open>None\<close> for \<open>null\<close>). The field \<open>notSelectors\<close> of the source is
  \<open>notSelectors (selector e)\<close>.
\<close>

datatype 'c SelectorContext =
  SelectorContext
    (selector: CssSelector)
    (cbContext: "'c option")
    (listContext: "nat option")

text \<open>
  A JavaScript \<open>Map\<close> is an association list: \<open>get\<close> is \<open>map_of\<close>, \<open>set\<close> is
  \<open>AList.update\<close>, which replaces the value of a key in place and puts a new key last,
  as \<open>Map\<close> does.
\<close>

datatype 'c SelectorMatcher =
  SelectorMatcher
    (elementMap: "(string \<times> 'c SelectorContext list) list")
    (elementPartialMap: "(string \<times> 'c SelectorMatcher) list")
    (classMap: "(string \<times> 'c SelectorContext list) list")
    (classPartialMap: "(string \<times> 'c SelectorMatcher) list")
    (attrValueMap: "(string \<times> (string \<times> 'c SelectorContext list) list) list")
    (attrValuePartialMap: "(string \<times> (string \<times> 'c SelectorMatcher) list) list")
    (listContexts: "nat list")

definition new_SelectorMatcher :: "'c SelectorMatcher" where
  "new_SelectorMatcher = SelectorMatcher [] [] [] [] [] [] []"

definition addTerminal ::
  "(string \<times> 'c SelectorContext list) list \<Rightarrow> string \<Rightarrow> 'c SelectorContext
    \<Rightarrow> (string \<times> 'c SelectorContext list) list" where
  \<comment> \<open>\<open>_addTerminal\<close>: the map after the push\<close>
  "addTerminal m name selectable =
     (let terminalList = (case map_of m name of None \<Rightarrow> [] | Some l \<Rightarrow> l)
      in AList.update name (terminalList @ [selectable]) m)"

definition addPartial :: "(string \<times> 'c SelectorMatcher) list \<Rightarrow> string \<Rightarrow> 'c SelectorMatcher" where
  \<comment> \<open>\<open>_addPartial\<close>: the matcher stored under the name, a new one when there is none. The
      source returns the stored object and the caller goes on writing into it; here the
      caller stores the matcher it has written into back under the name.\<close>
  "addPartial m name = (case map_of m name of None \<Rightarrow> new_SelectorMatcher | Some matcher \<Rightarrow> matcher)"

text \<open>
  \<open>_addSelectable\<close> walks down the tree with its variable \<open>matcher\<close>, one loop for the
  element, one for the class names, one for the attributes. Each loop is a function of the
  matcher reached so far and returns that matcher after all later writes.
\<close>

fun addAttrs ::
  "'c SelectorMatcher \<Rightarrow> (string \<times> string) list \<Rightarrow> 'c SelectorContext \<Rightarrow> 'c SelectorMatcher" where
  "addAttrs matcher [] selectable = matcher"
| "addAttrs matcher ((name, value) # rest) selectable =
     (if rest = [] then
        (let terminalMap = attrValueMap matcher;
             terminalValuesMap = (case map_of terminalMap name of None \<Rightarrow> [] | Some m \<Rightarrow> m)
         in SelectorMatcher (elementMap matcher) (elementPartialMap matcher)
              (classMap matcher) (classPartialMap matcher)
              (AList.update name (addTerminal terminalValuesMap value selectable) terminalMap)
              (attrValuePartialMap matcher) (listContexts matcher))
      else
        (let partialMap = attrValuePartialMap matcher;
             partialValuesMap = (case map_of partialMap name of None \<Rightarrow> [] | Some m \<Rightarrow> m);
             nested = addAttrs (addPartial partialValuesMap value) rest selectable
         in SelectorMatcher (elementMap matcher) (elementPartialMap matcher)
              (classMap matcher) (classPartialMap matcher) (attrValueMap matcher)
              (AList.update name (AList.update value nested partialValuesMap) partialMap)
              (listContexts matcher)))"

fun addClassNames ::
  "'c SelectorMatcher \<Rightarrow> string list \<Rightarrow> (string \<times> string) list \<Rightarrow> 'c SelectorContext
    \<Rightarrow> 'c SelectorMatcher" where
  "addClassNames matcher [] ats selectable = addAttrs matcher ats selectable"
| "addClassNames matcher (className # rest) ats selectable =
     (if length ats = 0 \<and> rest = [] then
        addAttrs
          (SelectorMatcher (elementMap matcher) (elementPartialMap matcher)
             (addTerminal (classMap matcher) className selectable) (classPartialMap matcher)
             (attrValueMap matcher) (attrValuePartialMap matcher) (listContexts matcher))
          ats selectable
      else
        (let nested = addClassNames (addPartial (classPartialMap matcher) className) rest ats selectable
         in SelectorMatcher (elementMap matcher) (elementPartialMap matcher)
              (classMap matcher) (AList.update className nested (classPartialMap matcher))
              (attrValueMap matcher) (attrValuePartialMap matcher) (listContexts matcher)))"

definition addSelectable ::
  "'c SelectorMatcher \<Rightarrow> CssSelector \<Rightarrow> 'c option \<Rightarrow> nat option \<Rightarrow> 'c SelectorMatcher" where
  \<comment> \<open>\<open>_addSelectable\<close>\<close>
  "addSelectable this cssSel callbackCtxt listCtx =
     (let selectable = SelectorContext cssSel callbackCtxt listCtx
      in case element cssSel of
           None \<Rightarrow> addClassNames this (classNames cssSel) (attrs cssSel) selectable
         | Some el \<Rightarrow>
             if el = [] then addClassNames this (classNames cssSel) (attrs cssSel) selectable
             else if length (attrs cssSel) = 0 \<and> length (classNames cssSel) = 0 then
               addClassNames
                 (SelectorMatcher (addTerminal (elementMap this) el selectable)
                    (elementPartialMap this) (classMap this) (classPartialMap this)
                    (attrValueMap this) (attrValuePartialMap this) (listContexts this))
                 (classNames cssSel) (attrs cssSel) selectable
             else
               (let nested = addClassNames (addPartial (elementPartialMap this) el)
                               (classNames cssSel) (attrs cssSel) selectable
                in SelectorMatcher (elementMap this)
                     (AList.update el nested (elementPartialMap this))
                     (classMap this) (classPartialMap this)
                     (attrValueMap this) (attrValuePartialMap this) (listContexts this)))"

definition addSelectables ::
  "'c SelectorMatcher \<Rightarrow> CssSelector list \<Rightarrow> 'c option \<Rightarrow> SelectorListContext list
    \<Rightarrow> 'c SelectorMatcher \<times> SelectorListContext list" where
  \<comment> \<open>the matcher, the batch, the callback context and the store; a new list context gets
      the next free address\<close>
  "addSelectables this cssSelectors callbackCtxt store =
     (if length cssSelectors > 1 then
        (let listCtx = length store;
             store' = store @ [\<lparr>selectors = cssSelectors, alreadyMatched = False\<rparr>];
             this' = SelectorMatcher (elementMap this) (elementPartialMap this)
                       (classMap this) (classPartialMap this)
                       (attrValueMap this) (attrValuePartialMap this)
                       (listContexts this @ [listCtx])
         in (foldl (\<lambda>m c. addSelectable m c callbackCtxt (Some listCtx)) this' cssSelectors, store'))
      else (foldl (\<lambda>m c. addSelectable m c callbackCtxt None) this cssSelectors, store))"

definition createNotMatcher ::
  "CssSelector list \<Rightarrow> 'c SelectorMatcher \<times> SelectorListContext list" where
  \<comment> \<open>a new matcher with a new, empty store\<close>
  "createNotMatcher nots = addSelectables new_SelectorMatcher nots None []"

text \<open>
  All entries stored in a matcher and in the matchers below it. Only the termination
  argument of \<open>match\<close> and the invariants of the index use it.
\<close>

fun entries :: "'c SelectorMatcher \<Rightarrow> 'c SelectorContext list" where
  "entries (SelectorMatcher em epm cm cpm am apm lcs) =
     concat (map snd em) @ concat (map (\<lambda>p. entries (snd p)) epm)
     @ concat (map snd cm) @ concat (map (\<lambda>p. entries (snd p)) cpm)
     @ concat (map (\<lambda>p. concat (map snd (snd p))) am)
     @ concat (map (\<lambda>p. concat (map (\<lambda>p'. entries (snd p')) (snd p))) apm)"


lemma update_UN_subset:
  "(\<Union>p\<in>set (AList.update k v m). F (snd p)) \<subseteq> F v \<union> (\<Union>p\<in>set m. F (snd p))"
  by (induction m) auto

lemma map_of_UN_subset: "map_of m k = Some v \<Longrightarrow> F v \<subseteq> (\<Union>p\<in>set m. F (snd p))"
  by (auto dest!: map_of_SomeD)

lemma addTerminal_subset:
  "(\<Union>p\<in>set (addTerminal m k e). set (snd p)) \<subseteq> insert e (\<Union>p\<in>set m. set (snd p))"
proof (cases "map_of m k")
  case None
  then show ?thesis
    using update_UN_subset [where k=k and v="[e]" and m=m and F=set] by (auto simp: addTerminal_def)
next
  case (Some l)
  then show ?thesis
    using update_UN_subset [where k=k and v="l @ [e]" and m=m and F=set] map_of_UN_subset [OF Some, where F=set]
    by (auto simp: addTerminal_def)
qed

lemma entries_new [simp]: "entries new_SelectorMatcher = []"
  by (simp add: new_SelectorMatcher_def)

lemma addPartial_subset: "set (entries (addPartial m k)) \<subseteq> (\<Union>p\<in>set m. set (entries (snd p)))"
proof (cases "map_of m k")
  case None
  then show ?thesis by (simp add: addPartial_def)
next
  case (Some a)
  then show ?thesis
    using map_of_UN_subset [OF Some, where F="\<lambda>x. set (entries x)"]
    by (simp add: addPartial_def)
qed


definition terminalEntries :: "(string \<times> 'c SelectorContext list) list \<Rightarrow> 'c SelectorContext set" where
  "terminalEntries m = (\<Union>p\<in>set m. set (snd p))"

definition partialEntries :: "(string \<times> 'c SelectorMatcher) list \<Rightarrow> 'c SelectorContext set" where
  "partialEntries m = (\<Union>p\<in>set m. set (entries (snd p)))"

lemma set_entries':
  "set (entries (SelectorMatcher em epm cm cpm am apm lcs)) =
     terminalEntries em \<union> partialEntries epm \<union> terminalEntries cm \<union> partialEntries cpm
     \<union> (\<Union>p\<in>set am. terminalEntries (snd p)) \<union> (\<Union>p\<in>set apm. partialEntries (snd p))"
  by (auto simp: terminalEntries_def partialEntries_def)

lemma terminalEntries_update:
  "terminalEntries (AList.update k v m) \<subseteq> set v \<union> terminalEntries m"
  unfolding terminalEntries_def by (rule update_UN_subset)

lemma partialEntries_update:
  "partialEntries (AList.update k v m) \<subseteq> set (entries v) \<union> partialEntries m"
  unfolding partialEntries_def by (rule update_UN_subset [where F="\<lambda>x. set (entries x)"])

lemma terminalEntries_addTerminal:
  "terminalEntries (addTerminal m k e) \<subseteq> insert e (terminalEntries m)"
  unfolding terminalEntries_def by (rule addTerminal_subset)

lemma entries_addPartial: "set (entries (addPartial m k)) \<subseteq> partialEntries m"
  unfolding partialEntries_def by (rule addPartial_subset)

lemma map_of_terminalEntries:
  "(\<Union>p\<in>set (case map_of m k of None \<Rightarrow> [] | Some x \<Rightarrow> x). F p) \<subseteq> (\<Union>p\<in>set m. \<Union>q\<in>set (snd p). F q)"
proof (cases "map_of m k")
  case None
  then show ?thesis by simp
next
  case (Some a)
  then show ?thesis
    using map_of_UN_subset [OF Some, where F="\<lambda>x. (\<Union>q\<in>set x. F q)"] by simp
qed

lemma entries_addAttrs: "set (entries (addAttrs M ats e)) \<subseteq> insert e (set (entries M))"
proof (induction M ats e rule: addAttrs.induct)
  case (1 matcher selectable)
  then show ?case by auto
next
  case (2 matcher name "value" rest selectable)
  obtain em epm cm cpm am apm lcs where M: "matcher = SelectorMatcher em epm cm cpm am apm lcs"
    by (cases matcher)
  show ?case
  proof (cases "rest = []")
    case True
    define tvm where "tvm = (case map_of am name of None \<Rightarrow> [] | Some m \<Rightarrow> m)"
    define Old where "Old = (\<Union>p\<in>set am. terminalEntries (snd p))"
    define A where "A = (\<Union>p\<in>set (AList.update name (addTerminal tvm value selectable) am). terminalEntries (snd p))"
    have a: "terminalEntries tvm \<subseteq> Old"
      unfolding tvm_def Old_def terminalEntries_def by (rule map_of_terminalEntries)
    have b: "A \<subseteq> terminalEntries (addTerminal tvm value selectable) \<union> Old"
      unfolding A_def Old_def by (rule update_UN_subset)
    have c: "terminalEntries (addTerminal tvm value selectable) \<subseteq> insert selectable (terminalEntries tvm)"
      by (rule terminalEntries_addTerminal)
    have d: "A \<subseteq> insert selectable Old" using a b c by blast
    have eq: "addAttrs (SelectorMatcher em epm cm cpm am apm lcs) ((name, value) # rest) selectable
          = SelectorMatcher em epm cm cpm (AList.update name (addTerminal tvm value selectable) am) apm lcs"
      using True by (simp add: Let_def tvm_def)
    show ?thesis
      unfolding M eq set_entries' A_def [symmetric] Old_def [symmetric] using d by auto
  next
    case False
    define pvm where "pvm = (case map_of apm name of None \<Rightarrow> [] | Some m \<Rightarrow> m)"
    define nested where "nested = addAttrs (addPartial pvm value) rest selectable"
    define Old where "Old = (\<Union>p\<in>set apm. partialEntries (snd p))"
    define A where "A = (\<Union>p\<in>set (AList.update name (AList.update value nested pvm) apm). partialEntries (snd p))"
    have ih: "set (entries nested) \<subseteq> insert selectable (set (entries (addPartial pvm value)))"
      unfolding nested_def pvm_def using 2 [OF False refl refl] by (simp add: M)
    have a: "partialEntries pvm \<subseteq> Old"
      unfolding pvm_def Old_def partialEntries_def by (rule map_of_terminalEntries)
    have b: "A \<subseteq> partialEntries (AList.update value nested pvm) \<union> Old"
      unfolding A_def Old_def by (rule update_UN_subset)
    have c: "partialEntries (AList.update value nested pvm) \<subseteq> set (entries nested) \<union> partialEntries pvm"
      by (rule partialEntries_update)
    have d: "set (entries (addPartial pvm value)) \<subseteq> partialEntries pvm"
      by (rule entries_addPartial)
    have e: "A \<subseteq> insert selectable Old" using ih a b c d by blast
    have eq: "addAttrs (SelectorMatcher em epm cm cpm am apm lcs) ((name, value) # rest) selectable
          = SelectorMatcher em epm cm cpm am (AList.update name (AList.update value nested pvm) apm) lcs"
      using False by (simp add: Let_def pvm_def nested_def)
    show ?thesis
      unfolding M eq set_entries' A_def [symmetric] Old_def [symmetric] using e by auto
  qed
qed


lemma entries_addClassNames:
  "set (entries (addClassNames M cs ats e)) \<subseteq> insert e (set (entries M))"
proof (induction M cs ats e rule: addClassNames.induct)
  case (1 matcher ats selectable)
  then show ?case by (simp add: entries_addAttrs)
next
  case (2 matcher className rest ats selectable)
  obtain em epm cm cpm am apm lcs where M: "matcher = SelectorMatcher em epm cm cpm am apm lcs"
    by (cases matcher)
  show ?case
  proof (cases "length ats = 0 \<and> rest = []")
    case True
    have eq: "addClassNames (SelectorMatcher em epm cm cpm am apm lcs) (className # rest) ats selectable
          = SelectorMatcher em epm (addTerminal cm className selectable) cpm am apm lcs"
      using True by simp
    have "terminalEntries (addTerminal cm className selectable) \<subseteq> insert selectable (terminalEntries cm)"
      by (rule terminalEntries_addTerminal)
    then show ?thesis
      unfolding M eq set_entries' by auto
  next
    case False
    define nested where "nested = addClassNames (addPartial cpm className) rest ats selectable"
    have ih: "set (entries nested) \<subseteq> insert selectable (set (entries (addPartial cpm className)))"
      unfolding nested_def using 2 [OF False] by (simp add: M)
    have c: "partialEntries (AList.update className nested cpm) \<subseteq> set (entries nested) \<union> partialEntries cpm"
      by (rule partialEntries_update)
    have d: "set (entries (addPartial cpm className)) \<subseteq> partialEntries cpm"
      by (rule entries_addPartial)
    have e: "partialEntries (AList.update className nested cpm) \<subseteq> insert selectable (partialEntries cpm)"
      using ih c d by blast
    have eq: "addClassNames (SelectorMatcher em epm cm cpm am apm lcs) (className # rest) ats selectable
          = SelectorMatcher em epm cm (AList.update className nested cpm) am apm lcs"
      using False by (auto simp: Let_def nested_def)
    show ?thesis
      unfolding M eq set_entries' using e by auto
  qed
qed

lemma entries_addSelectable:
  "set (entries (addSelectable M s ctx lc)) \<subseteq> insert (SelectorContext s ctx lc) (set (entries M))"
proof -
  obtain em epm cm cpm am apm lcs where M: "M = SelectorMatcher em epm cm cpm am apm lcs"
    by (cases M)
  define e where "e = SelectorContext s ctx lc"
  show ?thesis
  proof (cases "truthy (element s)")
    case False
    then have "addSelectable M s ctx lc = addClassNames M (classNames s) (attrs s) e"
      by (auto simp: addSelectable_def truthy_def e_def split: option.splits)
    then show ?thesis
      using entries_addClassNames [of M "classNames s" "attrs s" e] by (simp add: e_def)
  next
    case True
    then obtain el where el: "element s = Some el" "el \<noteq> []"
      by (auto simp: truthy_def split: option.splits)
    show ?thesis
    proof (cases "length (attrs s) = 0 \<and> length (classNames s) = 0")
      case True
      have eq: "addSelectable (SelectorMatcher em epm cm cpm am apm lcs) s ctx lc
            = SelectorMatcher (addTerminal em el e) epm cm cpm am apm lcs"
        using True el by (simp add: addSelectable_def e_def)
      have "terminalEntries (addTerminal em el e) \<subseteq> insert e (terminalEntries em)"
        by (rule terminalEntries_addTerminal)
      then show ?thesis
        unfolding M eq set_entries' e_def [symmetric] by auto
    next
      case False
      define nested where "nested = addClassNames (addPartial epm el) (classNames s) (attrs s) e"
      have ih: "set (entries nested) \<subseteq> insert e (set (entries (addPartial epm el)))"
        unfolding nested_def by (rule entries_addClassNames)
      have c: "partialEntries (AList.update el nested epm) \<subseteq> set (entries nested) \<union> partialEntries epm"
        by (rule partialEntries_update)
      have d: "set (entries (addPartial epm el)) \<subseteq> partialEntries epm"
        by (rule entries_addPartial)
      have f: "partialEntries (AList.update el nested epm) \<subseteq> insert e (partialEntries epm)"
        using ih c d by blast
      have eq: "addSelectable (SelectorMatcher em epm cm cpm am apm lcs) s ctx lc
            = SelectorMatcher em (AList.update el nested epm) cm cpm am apm lcs"
        using False el by (auto simp: addSelectable_def e_def nested_def Let_def)
      show ?thesis
        unfolding M eq set_entries' e_def [symmetric] using f by auto
    qed
  qed
qed

lemma entries_foldl_addSelectable:
  "set (entries (foldl (\<lambda>m c. addSelectable m c ctx lc) M sels))
     \<subseteq> set (entries M) \<union> (\<lambda>s. SelectorContext s ctx lc) ` set sels"
proof (induction sels arbitrary: M)
  case Nil
  then show ?case by simp
next
  case (Cons s sels)
  have "set (entries (foldl (\<lambda>m c. addSelectable m c ctx lc) (addSelectable M s ctx lc) sels))
      \<subseteq> set (entries (addSelectable M s ctx lc)) \<union> (\<lambda>s. SelectorContext s ctx lc) ` set sels"
    by (rule Cons.IH)
  then show ?case
    using entries_addSelectable [of M s ctx lc] by auto
qed

lemma entries_listContexts_upd:
  "entries (SelectorMatcher (elementMap M) (elementPartialMap M) (classMap M) (classPartialMap M)
      (attrValueMap M) (attrValuePartialMap M) l) = entries M"
  by (cases M) simp

lemma entries_addSelectables:
  "set (entries (fst (addSelectables M sels ctx store)))
     \<subseteq> set (entries M) \<union>
        (\<lambda>s. SelectorContext s ctx (if length sels > 1 then Some (length store) else None)) ` set sels"
proof (cases "length sels > 1")
  case True
  define M' where "M' = SelectorMatcher (elementMap M) (elementPartialMap M) (classMap M)
    (classPartialMap M) (attrValueMap M) (attrValuePartialMap M) (listContexts M @ [length store])"
  have "entries M' = entries M" unfolding M'_def by (rule entries_listContexts_upd)
  then show ?thesis
    using True entries_foldl_addSelectable [of ctx "Some (length store)" M' sels]
    by (simp add: addSelectables_def Let_def M'_def)
next
  case False
  then show ?thesis
    using entries_foldl_addSelectable [of ctx None M sels]
    by (simp add: addSelectables_def Let_def)
qed

lemma entries_createNotMatcher:
  "e \<in> set (entries (fst (createNotMatcher nots))) \<Longrightarrow> selector e \<in> set nots"
  using entries_addSelectables [of new_SelectorMatcher nots None "[]"]
  by (auto simp: createNotMatcher_def)


text \<open>
  The measure for \<open>match\<close> and \<open>finalize\<close>: the largest selector held by an entry
  (a not-matcher holds the strictly smaller \<open>notSelectors\<close> of one entry), then the size
  of the tree of matchers, then the length of the list a loop still has to walk.
\<close>

definition selBound :: "'c SelectorContext set \<Rightarrow> nat" where
  "selBound E = (if finite E then Max (insert 0 ((\<lambda>e. size (selector e)) ` E)) else 0)"

lemma selBound_mono: "finite F \<Longrightarrow> E \<subseteq> F \<Longrightarrow> selBound E \<le> selBound F"
proof -
  assume F: "finite F" and sub: "E \<subseteq> F"
  then have E: "finite E" by (rule rev_finite_subset)
  have "Max (insert 0 ((\<lambda>e. size (selector e)) ` E)) \<le> Max (insert 0 ((\<lambda>e. size (selector e)) ` F))"
    using F E sub by (intro Max_mono) auto
  then show ?thesis using E F by (simp add: selBound_def)
qed

lemma selBound_less: "finite E \<Longrightarrow> \<forall>e\<in>E. size (selector e) < n \<Longrightarrow> 0 < n \<Longrightarrow> selBound E < n"
  by (simp add: selBound_def)

lemma selBound_ge: "finite E \<Longrightarrow> e \<in> E \<Longrightarrow> size (selector e) \<le> selBound E"
  by (simp add: selBound_def)

lemma finite_terminalEntries [simp]: "finite (terminalEntries m)"
  by (simp add: terminalEntries_def)

lemma finite_partialEntries [simp]: "finite (partialEntries m)"
  by (simp add: partialEntries_def)

definition partialSize :: "(string \<times> 'c SelectorMatcher) list \<Rightarrow> nat" where
  "partialSize m = size_list (size_prod (\<lambda>_. 0) size) m"

lemma map_of_partialSize: "map_of m k = Some M \<Longrightarrow> size M < partialSize m"
proof -
  assume "map_of m k = Some M"
  then have "(k, M) \<in> set m" by (rule map_of_SomeD)
  then show ?thesis
    unfolding partialSize_def by (rule size_list_estimation) simp
qed

lemma map_of_partialEntries: "map_of m k = Some M \<Longrightarrow> set (entries M) \<subseteq> partialEntries m"
  unfolding partialEntries_def by (rule map_of_UN_subset [where F="\<lambda>x. set (entries x)"])

lemma map_of_terminalEntries': "map_of m k = Some l \<Longrightarrow> set l \<subseteq> terminalEntries m"
  unfolding terminalEntries_def by (rule map_of_UN_subset [where F=set])

lemma partialSize_fields:
  "partialSize (elementPartialMap M) < size M"
  "partialSize (classPartialMap M) < size M"
  "map_of (attrValuePartialMap M) k = Some m \<Longrightarrow> partialSize m < size M"
proof -
  show "partialSize (elementPartialMap M) < size M" by (cases M) (simp add: partialSize_def)
  show "partialSize (classPartialMap M) < size M" by (cases M) (simp add: partialSize_def)
  assume "map_of (attrValuePartialMap M) k = Some m"
  then have "(k, m) \<in> set (attrValuePartialMap M)" by (rule map_of_SomeD)
  then have "partialSize m \<le> size_list (size_prod (\<lambda>_. 0) (size_list (size_prod (\<lambda>_. 0) size))) (attrValuePartialMap M)"
    unfolding partialSize_def by (rule size_list_estimation') simp
  then show "partialSize m < size M" by (cases M) simp
qed

lemma entries_fields:
  "terminalEntries (elementMap M) \<subseteq> set (entries M)"
  "partialEntries (elementPartialMap M) \<subseteq> set (entries M)"
  "terminalEntries (classMap M) \<subseteq> set (entries M)"
  "partialEntries (classPartialMap M) \<subseteq> set (entries M)"
  "map_of (attrValueMap M) k = Some tm \<Longrightarrow> terminalEntries tm \<subseteq> set (entries M)"
  "map_of (attrValuePartialMap M) k = Some pm \<Longrightarrow> partialEntries pm \<subseteq> set (entries M)"
proof -
  obtain em epm cm cpm am apm lcs where M: "M = SelectorMatcher em epm cm cpm am apm lcs"
    by (cases M)
  show "terminalEntries (elementMap M) \<subseteq> set (entries M)" unfolding M set_entries' by auto
  show "partialEntries (elementPartialMap M) \<subseteq> set (entries M)" unfolding M set_entries' by auto
  show "terminalEntries (classMap M) \<subseteq> set (entries M)" unfolding M set_entries' by auto
  show "partialEntries (classPartialMap M) \<subseteq> set (entries M)" unfolding M set_entries' by auto
  show "terminalEntries tm \<subseteq> set (entries M)" if "map_of (attrValueMap M) k = Some tm"
    using map_of_SomeD [OF that] unfolding M set_entries' by force
  show "partialEntries pm \<subseteq> set (entries M)" if "map_of (attrValuePartialMap M) k = Some pm"
    using map_of_SomeD [OF that] unfolding M set_entries' by force
qed

fun boundMeasure where
  "boundMeasure (Inl (Inl (this, _))) = selBound (set (entries this))"
| "boundMeasure (Inl (Inr (Inl (this, _)))) = selBound (set (entries this))"
| "boundMeasure (Inl (Inr (Inr (this, _)))) = selBound (set (entries this))"
| "boundMeasure (Inr (Inl (Inl (m, _)))) = selBound (case m of None \<Rightarrow> {} | Some tm \<Rightarrow> terminalEntries tm)"
| "boundMeasure (Inr (Inl (Inr (selectables, _)))) = selBound (set selectables)"
| "boundMeasure (Inr (Inr (Inl (m, _)))) = selBound (case m of None \<Rightarrow> {} | Some pm \<Rightarrow> partialEntries pm)"
| "boundMeasure (Inr (Inr (Inr (this, _)))) = size (selector this)"

fun sizeMeasure where
  "sizeMeasure (Inl (Inl (this, _))) = 2 * size this + 1"
| "sizeMeasure (Inl (Inr (Inl (this, _)))) = 2 * size this"
| "sizeMeasure (Inl (Inr (Inr (this, _)))) = 2 * size this"
| "sizeMeasure (Inr (Inl (Inl (m, _)))) = Suc 0"
| "sizeMeasure (Inr (Inl (Inr (selectables, _)))) = 0"
| "sizeMeasure (Inr (Inr (Inl (m, _)))) = 2 * (case m of None \<Rightarrow> 0 | Some pm \<Rightarrow> partialSize pm) + 1"
| "sizeMeasure (Inr (Inr (Inr (this, _)))) = 0"

fun loopMeasure where
  "loopMeasure (Inl (Inl (this, _))) = 0"
| "loopMeasure (Inl (Inr (Inl (this, cs, _)))) = length cs"
| "loopMeasure (Inl (Inr (Inr (this, ats, _)))) = length ats"
| "loopMeasure (Inr (Inl (Inl (m, _)))) = 0"
| "loopMeasure (Inr (Inl (Inr (selectables, _)))) = Suc (length selectables)"
| "loopMeasure (Inr (Inr (Inl (m, _)))) = 0"
| "loopMeasure (Inr (Inr (Inr (this, _)))) = 0"

definition matchRel where
  "matchRel = inv_image (less_than <*lex*> less_than <*lex*> less_than)
      (\<lambda>x. (boundMeasure x, sizeMeasure x, loopMeasure x))"

lemma wf_matchRel: "wf matchRel"
  unfolding matchRel_def by (intro wf_inv_image wf_lex_prod wf_less_than)

lemma matchRelI:
  "boundMeasure x \<le> boundMeasure y
    \<Longrightarrow> sizeMeasure x < sizeMeasure y \<or> (sizeMeasure x = sizeMeasure y \<and> loopMeasure x < loopMeasure y)
    \<Longrightarrow> (x, y) \<in> matchRel"
  unfolding matchRel_def by auto

lemma matchRelI': "boundMeasure x < boundMeasure y \<Longrightarrow> (x, y) \<in> matchRel"
  unfolding matchRel_def by auto

lemma size_SelectorMatcher_pos: "0 < size (M :: 'c SelectorMatcher)"
  by (cases M) simp

lemma selBound_empty [simp]: "selBound {} = 0"
  by (simp add: selBound_def)

lemma selBound_attrValueMap:
  "selBound (case map_of (attrValueMap M) k of None \<Rightarrow> {} | Some tm \<Rightarrow> terminalEntries tm)
     \<le> selBound (set (entries M))"
  by (cases "map_of (attrValueMap M) k") (simp_all add: selBound_mono entries_fields)

lemma selBound_attrValuePartialMap:
  "selBound (case map_of (attrValuePartialMap M) k of None \<Rightarrow> {} | Some pm \<Rightarrow> partialEntries pm)
     \<le> selBound (set (entries M))"
  by (cases "map_of (attrValuePartialMap M) k") (simp_all add: selBound_mono entries_fields)

lemma partialSize_attrValuePartialMap:
  "(case map_of (attrValuePartialMap M) k of None \<Rightarrow> 0 | Some pm \<Rightarrow> partialSize pm) < size M"
  by (cases "map_of (attrValuePartialMap M) k")
    (simp_all add: size_SelectorMatcher_pos partialSize_fields)

lemma set_map_of_terminalEntries:
  "set (case map_of m k of None \<Rightarrow> [] | Some l \<Rightarrow> l) \<subseteq> terminalEntries m"
  by (cases "map_of m k") (simp_all add: map_of_terminalEntries')

section \<open>SelectorMatcher.match and SelectorContext.finalize\<close>

text \<open>
  The state of a run of \<open>match\<close>: the store of list contexts, and the log of the
  callback invocations made so far. An invocation \<open>callback(this.selector, this.cbContext)\<close>
  is logged as the entry \<open>this\<close> that made it. The argument \<open>callback\<close> of the model
  says whether a callback was supplied (\<open>False\<close> for \<open>null\<close>); the callback itself is
  taken not to touch the matcher.

  \<open>result = f(...) || result\<close> always evaluates \<open>f(...)\<close>, so every probe is made
  and the results are joined by \<open>\<or>\<close>. The loops over the class names, the attributes
  and the selectables are the functions \<open>matchClassNames\<close>, \<open>matchAttrs\<close> and
  \<open>finalizeAll\<close>. A map argument is \<open>None\<close> when it is \<open>undefined\<close>, a name
  argument is \<open>None\<close> when it is not a string (\<open>null\<close>).
\<close>

type_synonym 'c run = "SelectorListContext list \<times> 'c SelectorContext list"

definition isAlreadyMatched :: "nat option \<Rightarrow> SelectorListContext list \<Rightarrow> bool" where
  "isAlreadyMatched listCtx store =
     (case listCtx of None \<Rightarrow> False | Some a \<Rightarrow> a < length store \<and> alreadyMatched (store ! a))"

definition setAlreadyMatched :: "bool \<Rightarrow> nat \<Rightarrow> SelectorListContext list \<Rightarrow> SelectorListContext list" where
  "setAlreadyMatched b a store = (if a < length store then store[a := (store ! a)\<lparr>alreadyMatched := b\<rparr>] else store)"

function
  match :: "'c SelectorMatcher \<Rightarrow> CssSelector \<Rightarrow> bool \<Rightarrow> 'c run \<Rightarrow> bool \<times> 'c run" and
  matchClassNames :: "'c SelectorMatcher \<Rightarrow> string list \<Rightarrow> CssSelector \<Rightarrow> bool \<Rightarrow> 'c run \<Rightarrow> bool \<times> 'c run" and
  matchAttrs :: "'c SelectorMatcher \<Rightarrow> (string \<times> string) list \<Rightarrow> CssSelector \<Rightarrow> bool \<Rightarrow> 'c run \<Rightarrow> bool \<times> 'c run" and
  matchTerminal :: "(string \<times> 'c SelectorContext list) list option \<Rightarrow> string option \<Rightarrow> CssSelector \<Rightarrow> bool \<Rightarrow> 'c run \<Rightarrow> bool \<times> 'c run" and
  finalizeAll :: "'c SelectorContext list \<Rightarrow> CssSelector \<Rightarrow> bool \<Rightarrow> 'c run \<Rightarrow> bool \<times> 'c run" and
  matchPartial :: "(string \<times> 'c SelectorMatcher) list option \<Rightarrow> string option \<Rightarrow> CssSelector \<Rightarrow> bool \<Rightarrow> 'c run \<Rightarrow> bool \<times> 'c run" and
  finalize :: "'c SelectorContext \<Rightarrow> CssSelector \<Rightarrow> bool \<Rightarrow> 'c run \<Rightarrow> bool \<times> 'c run"
where
  "match this cssSel callback st =
     (let st0 = (fold (setAlreadyMatched False) (listContexts this) (fst st), snd st);
          (r1, st1) = matchTerminal (Some (elementMap this)) (element cssSel) cssSel callback st0;
          (r2, st2) = matchPartial (Some (elementPartialMap this)) (element cssSel) cssSel callback st1;
          (r3, st3) = matchClassNames this (classNames cssSel) cssSel callback st2;
          (r4, st4) = matchAttrs this (attrs cssSel) cssSel callback st3
      in (r4 \<or> r3 \<or> r2 \<or> r1, st4))"
| "matchClassNames this [] cssSel callback st = (False, st)"
| "matchClassNames this (className # rest) cssSel callback st =
     (let (r1, st1) = matchTerminal (Some (classMap this)) (Some className) cssSel callback st;
          (r2, st2) = matchPartial (Some (classPartialMap this)) (Some className) cssSel callback st1;
          (r3, st3) = matchClassNames this rest cssSel callback st2
      in (r3 \<or> r2 \<or> r1, st3))"
| "matchAttrs this [] cssSel callback st = (False, st)"
| "matchAttrs this ((name, value) # rest) cssSel callback st =
     (let terminalValuesMap = map_of (attrValueMap this) name;
          (r1, st1) = (if value \<noteq> [] then matchTerminal terminalValuesMap (Some []) cssSel callback st
                       else (False, st));
          (r2, st2) = matchTerminal terminalValuesMap (Some value) cssSel callback st1;
          partialValuesMap = map_of (attrValuePartialMap this) name;
          (r3, st3) = (if value \<noteq> [] then matchPartial partialValuesMap (Some []) cssSel callback st2
                       else (False, st2));
          (r4, st4) = matchPartial partialValuesMap (Some value) cssSel callback st3;
          (r5, st5) = matchAttrs this rest cssSel callback st4
      in (r5 \<or> r4 \<or> r3 \<or> r2 \<or> r1, st5))"
| "matchTerminal None name cssSel callback st = (False, st)"
| "matchTerminal (Some m) None cssSel callback st = (False, st)"
| "matchTerminal (Some m) (Some name) cssSel callback st =
     (let selectables = (case map_of m name of None \<Rightarrow> [] | Some l \<Rightarrow> l);
          selectables = (case map_of m ''*'' of None \<Rightarrow> selectables | Some starSelectables \<Rightarrow> selectables @ starSelectables)
      in if length selectables = 0 then (False, st)
         else finalizeAll selectables cssSel callback st)"
| "finalizeAll [] cssSel callback st = (False, st)"
| "finalizeAll (selectable # rest) cssSel callback st =
     (let (r1, st1) = finalize selectable cssSel callback st;
          (r2, st2) = finalizeAll rest cssSel callback st1
      in (r2 \<or> r1, st2))"
| "matchPartial None name cssSel callback st = (False, st)"
| "matchPartial (Some m) None cssSel callback st = (False, st)"
| "matchPartial (Some m) (Some name) cssSel callback st =
     (case map_of m name of
        None \<Rightarrow> (False, st)
      | Some nestedSelector \<Rightarrow> match nestedSelector cssSel callback st)"
| "finalize this cssSel callback st =
     (let matched = isAlreadyMatched (listContext this) (fst st);
          result =
            (if length (notSelectors (selector this)) > 0 \<and> \<not> matched then
               (let (notMatcher, notStore) = (createNotMatcher (notSelectors (selector this)) :: 'c SelectorMatcher \<times> SelectorListContext list)
                in \<not> fst (match notMatcher cssSel False (notStore, [])))
             else True)
      in if result \<and> callback \<and> \<not> matched then
           (True, (case listContext this of None \<Rightarrow> fst st | Some a \<Rightarrow> setAlreadyMatched True a (fst st)),
                  snd st @ [this])
         else (result, st))"
  by pat_completeness auto

termination
proof (relation matchRel, goal_cases)
  case 1
  show ?case by (rule wf_matchRel)
next
  case (2 this cssSel callback st x)
  show ?case
    by (rule matchRelI) (simp_all add: selBound_mono entries_fields size_SelectorMatcher_pos)
next
  case (3 this cssSel callback st x xa xb y)
  show ?case
    using partialSize_fields(1) [of this]
    by (intro matchRelI) (simp_all add: selBound_mono entries_fields)
next
  case 4
  show ?case by (rule matchRelI) simp_all
next
  case 5
  show ?case by (rule matchRelI) simp_all
next
  case (6 this)
  show ?case
    using size_SelectorMatcher_pos [of this]
    by (intro matchRelI) (simp_all add: selBound_mono entries_fields)
next
  case (7 this)
  show ?case
    using partialSize_fields(2) [of this]
    by (intro matchRelI) (simp_all add: selBound_mono entries_fields)
next
  case 8
  show ?case by (rule matchRelI) simp_all
next
  case (9 this name "value" rest cssSel callback st x)
  show ?case
    using size_SelectorMatcher_pos [of this]
    by (intro matchRelI) (simp_all add: 9 selBound_attrValueMap)
next
  case (10 this name "value" rest cssSel callback st x)
  show ?case
    using size_SelectorMatcher_pos [of this]
    by (intro matchRelI) (simp_all add: 10 selBound_attrValueMap)
next
  case (11 this name "value" rest cssSel callback st x)
  show ?case
    using partialSize_attrValuePartialMap [of this name]
    by (intro matchRelI) (simp_all add: 11 selBound_attrValuePartialMap)
next
  case (12 this name "value" rest cssSel callback st x)
  show ?case
    using partialSize_attrValuePartialMap [of this name]
    by (intro matchRelI) (simp_all add: 12 selBound_attrValuePartialMap)
next
  case 13
  show ?case by (rule matchRelI) simp_all
next
  case (14 m name cssSel callback st x xa)
  have "set xa \<subseteq> terminalEntries m"
    using set_map_of_terminalEntries [of m name] map_of_terminalEntries' [of m "''*''"]
    by (cases "map_of m ''*''") (auto simp: 14)
  then show ?case
    by (intro matchRelI) (simp_all add: selBound_mono)
next
  case (15 selectable rest cssSel callback st)
  show ?case
    by (rule matchRelI) (simp_all add: selBound_ge)
next
  case (16 selectable rest)
  have "selBound (set rest) \<le> selBound (set (selectable # rest))"
    by (rule selBound_mono) auto
  then show ?case
    by (intro matchRelI) simp_all
next
  case (17 m name cssSel callback st x2)
  show ?case
    using map_of_partialSize [OF 17] map_of_partialEntries [OF 17]
    by (intro matchRelI) (simp_all add: selBound_mono)
next
  case (18 this cssSel callback st x xa xb y)
  have "\<forall>e\<in>set (entries xb). size (selector e) < size (selector this)"
  proof
    fix e assume e: "e \<in> set (entries xb)"
    have "xb = fst (createNotMatcher (notSelectors (selector this)))"
      using 18 by (metis fst_conv)
    with e have "selector e \<in> set (notSelectors (selector this))"
      by (simp add: entries_createNotMatcher)
    then have "size (selector e) < Suc (size_list size (notSelectors (selector this)))"
      by (simp add: size_list_estimation' less_Suc_eq_le)
    then show "size (selector e) < size (selector this)"
      by (cases "selector this") simp
  qed
  then have "selBound (set (entries xb)) < size (selector this)"
    by (intro selBound_less) (auto, cases "selector this", simp)
  then show ?case by (intro matchRelI') simp
qed


declare match.simps [simp del] finalize.simps [simp del]
  matchTerminal.simps [simp del] matchPartial.simps [simp del]

section \<open>Properties of the parser\<close>

lemma addResult_not_Nil: "addResult res c \<noteq> []"
  by (simp add: addResult_def)

text \<open>
  C10: on a text in which the regular expression finds no match (the empty text for one),
  \<open>parse\<close> returns exactly one selector, with \<open>element\<close> \<open>null\<close> and with
  no class name, attribute or not-selector; and whenever \<open>parse\<close> returns, its result
  holds at least one selector.
\<close>

theorem parse_without_token:
  "(exec s = None \<longrightarrow> parse s = Inr [CssSelector None [] [] []])
   \<and> parse [] = Inr [CssSelector None [] [] []]
   \<and> (\<forall>rs. parse s = Inr rs \<longrightarrow> rs \<noteq> [])"
proof (intro conjI impI allI)
  assume "exec s = None"
  then show "parse s = Inr [CssSelector None [] [] []]"
    by (simp add: parse_def parse_loop.simps [of s] addResult_def new_CssSelector_def truthy_def)
next
  show "parse [] = Inr [CssSelector None [] [] []]"
    by (simp add: parse_def parse_loop.simps [of "[]"] addResult_def new_CssSelector_def truthy_def)
next
  fix rs assume "parse s = Inr rs"
  then show "rs \<noteq> []"
    by (auto simp: parse_def addResult_not_Nil split: sum.splits)
qed

theorem parse_without_token_witness:
  "exec ''> ~ +'' = None \<and> parse ''> ~ +'' = Inr [CssSelector None [] [] []]
   \<and> (\<exists>rs. parse ''a, b'' = Inr rs \<and> rs \<noteq> [])"
proof -
  have e: "exec ''> ~ +'' = None" by code_simp
  have p: "parse ''a, b'' = Inr [CssSelector (Some ''a'') [] [] [], CssSelector (Some ''b'') [] [] []]"
    by code_simp
  from parse_without_token [of "''> ~ +''"] e
  have "parse ''> ~ +'' = Inr [CssSelector None [] [] []]" by blast
  moreover from parse_without_token [of "''a, b''"] p
  have "\<exists>rs. parse ''a, b'' = Inr rs \<and> rs \<noteq> []" by blast
  ultimately show ?thesis using e by blast
qed

subsection \<open>The universal element of a selector made of negations only\<close>

definition sealed :: "CssSelector \<Rightarrow> bool" where
  "sealed c = (notSelectors c \<noteq> [] \<and> classNames c = [] \<and> attrs c = [] \<longrightarrow> truthy (element c))"

lemma addResult_sealed:
  "\<forall>r\<in>set res. sealed r \<Longrightarrow> \<forall>r\<in>set (addResult res c). sealed r"
  by (auto simp: addResult_def sealed_def truthy_def)

lemma results_on_current [simp]: "results (on_current f st) = results st"
  by (simp add: on_current_def Let_def)

lemma parse_step_sealed:
  "parse_step m st = Inr st' \<Longrightarrow> \<forall>r\<in>set (results st). sealed r \<Longrightarrow> \<forall>r\<in>set (results st'). sealed r"
  by (cases m) (auto simp: parse_step_def Let_def addResult_sealed split: if_splits sum.splits)

lemma parse_loop_sealed:
  "parse_loop s st = Inr st' \<Longrightarrow> \<forall>r\<in>set (results st). sealed r \<Longrightarrow> \<forall>r\<in>set (results st'). sealed r"
proof (induction s st rule: parse_loop.induct)
  case (1 s st)
  show ?case
  proof (cases "exec s")
    case None
    with "1.prems" show ?thesis by (simp add: parse_loop.simps [of s])
  next
    case (Some a)
    obtain m rest where a: "a = (m, rest)" by (cases a)
    from "1.prems"(1) Some a obtain st1 where
      st1: "parse_step m st = Inr st1" and loop: "parse_loop rest st1 = Inr st'"
      by (auto simp: parse_loop.simps [of s] split: sum.splits)
    have "\<forall>r\<in>set (results st1). sealed r"
      using st1 "1.prems"(2) by (rule parse_step_sealed)
    with "1.IH" [OF Some a [symmetric] st1 loop] show ?thesis .
  qed
qed

text \<open>
  C7: \<open>_addResult\<close> pushes a selector that has not-selectors but no element, class name
  or attribute with its element set to \<open>*\<close>; so no selector returned by \<open>parse\<close> has
  not-selectors, no class name, no attribute and still no element; and
  \<open>parse(":not(.x)")\<close> is the one selector \<open>*\<close> with the single not-selector
  \<open>.x\<close>.
\<close>

theorem parse_universal_normalization:
  "(notSelectors c \<noteq> [] \<and> \<not> truthy (element c) \<and> classNames c = [] \<and> attrs c = []
      \<longrightarrow> addResult res c = res @ [CssSelector (Some ''*'') [] [] (notSelectors c)])
   \<and> (\<forall>rs. parse s = Inr rs \<longrightarrow>
        (\<forall>r\<in>set rs. notSelectors r \<noteq> [] \<and> classNames r = [] \<and> attrs r = [] \<longrightarrow> truthy (element r)))
   \<and> parse '':not(.x)'' = Inr [CssSelector (Some ''*'') [] [] [CssSelector None [''x''] [] []]]"
proof (intro conjI impI allI)
  assume "notSelectors c \<noteq> [] \<and> \<not> truthy (element c) \<and> classNames c = [] \<and> attrs c = []"
  then show "addResult res c = res @ [CssSelector (Some ''*'') [] [] (notSelectors c)]"
    by (simp add: addResult_def)
next
  fix rs assume p: "parse s = Inr rs"
  then obtain st where st: "parse_loop s \<lparr>results = [], cssSelector = new_CssSelector, inNot = False\<rparr> = Inr st"
    and rs: "rs = addResult (results st) (cssSelector st)"
    by (auto simp: parse_def split: sum.splits)
  have "\<forall>r\<in>set (results st). sealed r"
    using st by (rule parse_loop_sealed) simp
  then have "\<forall>r\<in>set rs. sealed r"
    unfolding rs by (rule addResult_sealed)
  then show "\<forall>r\<in>set rs. notSelectors r \<noteq> [] \<and> classNames r = [] \<and> attrs r = [] \<longrightarrow> truthy (element r)"
    by (simp add: sealed_def)
next
  show "parse '':not(.x)'' = Inr [CssSelector (Some ''*'') [] [] [CssSelector None [''x''] [] []]]"
    by code_simp
qed

theorem parse_universal_normalization_witness:
  "addResult [] (CssSelector None [] [] [CssSelector None [''x''] [] []])
     = [CssSelector (Some ''*'') [] [] [CssSelector None [''x''] [] []]]
   \<and> (\<exists>r. parse '':not(.x), :not(#y)'' = Inr [CssSelector (Some ''*'') [] [] [CssSelector None [''x''] [] []], r]
        \<and> notSelectors r \<noteq> [] \<and> classNames r = [] \<and> attrs r = [] \<and> truthy (element r))"
proof -
  have p: "parse '':not(.x), :not(#y)''
      = Inr [CssSelector (Some ''*'') [] [] [CssSelector None [''x''] [] []],
             CssSelector (Some ''*'') [] [] [CssSelector None [] [(''id'', ''y'')] []]]"
    by code_simp
  have "addResult [] (CssSelector None [] [] [CssSelector None [''x''] [] []])
     = [CssSelector (Some ''*'') [] [] [CssSelector None [''x''] [] []]]"
    using parse_universal_normalization [of "CssSelector None [] [] [CssSelector None [''x''] [] []]" "[]"]
    by (simp add: truthy_def)
  moreover have "truthy (element (CssSelector (Some ''*'') [] [] [CssSelector None [] [(''id'', ''y'')] []]))"
    using parse_universal_normalization [of _ _ "'':not(.x), :not(#y)''"] p
    by auto
  ultimately show ?thesis using p by simp
qed



subsection \<open>When parse raises\<close>

text \<open>
  The matches that the loop of \<open>parse\<close> meets on a text, in order (the loop itself
  stops at the first error), and the value of the variable \<open>inNot\<close> after a run of
  matches: \<open>:not(\<close> sets it, \<open>)\<close> clears it.
\<close>

function matches :: "string \<Rightarrow> regexp_match list" where
  "matches s = (case exec s of None \<Rightarrow> [] | Some (m, rest) \<Rightarrow> m # matches rest)"
  by pat_completeness auto
termination
  by (relation "measure length") (auto dest: exec_shorter)

declare matches.simps [simp del]

text \<open>
  An unescaped \<open>$\<close>: a \<open>$\<close> in an attribute name that is its first character or
  follows a character other than the backslash.
\<close>

definition unescapedDollarAt :: "string \<Rightarrow> nat \<Rightarrow> bool" where
  "unescapedDollarAt a i =
     (i < length a \<and> a ! i = CHR ''$'' \<and> (i = 0 \<or> a ! (i - 1) \<noteq> CHR 0x5C))"

fun inNotFrom :: "bool \<Rightarrow> regexp_match list \<Rightarrow> bool" where
  "inNotFrom b [] = b"
| "inNotFrom b (m # ms) = inNotFrom (if m = NOT then True else if m = NOT_END then False else b) ms"

text \<open>
  The three conditions on a match: \<open>:not(\<close> while \<open>inNot\<close> is set, a separator
  while \<open>inNot\<close> is set, an attribute whose name holds an unescaped \<open>$\<close>.
\<close>

definition parse_fails_on :: "bool \<Rightarrow> regexp_match \<Rightarrow> bool" where
  "parse_fails_on in_not m =
     ((m = NOT \<and> in_not) \<or> (m = SEPARATOR \<and> in_not)
      \<or> (\<exists>a v. m = ATTRIBUTE a v \<and> (\<exists>i. unescapedDollarAt a i)))"

definition parse_fails_in :: "bool \<Rightarrow> regexp_match list \<Rightarrow> bool" where
  "parse_fails_in in_not ms =
     (\<exists>pre m post. ms = pre @ m # post \<and> parse_fails_on (inNotFrom in_not pre) m)"

text \<open>The loop of \<open>parse\<close> as a walk over the matches of the text.\<close>

fun parse_steps :: "regexp_match list \<Rightarrow> parse_state \<Rightarrow> error + parse_state" where
  "parse_steps [] st = Inr st"
| "parse_steps (m # ms) st =
     (case parse_step m st of Inl e \<Rightarrow> Inl e | Inr st' \<Rightarrow> parse_steps ms st')"

lemma parse_loop_steps: "parse_loop s st = parse_steps (matches s) st"
proof (induction s st rule: parse_loop.induct)
  case (1 s st)
  show ?case
  proof (cases "exec s")
    case None
    then show ?thesis by (simp add: parse_loop.simps [of s] matches.simps [of s])
  next
    case (Some a)
    obtain m rest where a: "a = (m, rest)" by (cases a)
    show ?thesis
    proof (cases "parse_step m st")
      case (Inl e)
      with Some a show ?thesis by (simp add: parse_loop.simps [of s] matches.simps [of s])
    next
      case (Inr st1)
      with Some a "1.IH" [OF Some a [symmetric] Inr] show ?thesis
        by (simp add: parse_loop.simps [of s] matches.simps [of s])
    qed
  qed
qed

definition dollarAt :: "bool \<Rightarrow> string \<Rightarrow> nat \<Rightarrow> bool" where
  "dollarAt escaping cs i =
     (i < length cs \<and> cs ! i = CHR ''$'' \<and> (if i = 0 then \<not> escaping else cs ! (i - 1) \<noteq> CHR 0x5C))"

lemma dollarAt_0: "dollarAt escaping (c # cs) 0 \<longleftrightarrow> c = CHR ''$'' \<and> \<not> escaping"
  by (simp add: dollarAt_def)

lemma dollarAt_Suc: "dollarAt escaping (c # cs) (Suc j) \<longleftrightarrow> dollarAt (c = CHR 0x5C) cs j"
  by (cases j) (simp_all add: dollarAt_def)

lemma dollarAt_Cons:
  "(\<exists>i. dollarAt escaping (c # cs) i) \<longleftrightarrow> (c = CHR ''$'' \<and> \<not> escaping) \<or> (\<exists>j. dollarAt (c = CHR 0x5C) cs j)"
proof
  assume "\<exists>i. dollarAt escaping (c # cs) i"
  then obtain i where i: "dollarAt escaping (c # cs) i" ..
  show "(c = CHR ''$'' \<and> \<not> escaping) \<or> (\<exists>j. dollarAt (c = CHR 0x5C) cs j)"
  proof (cases i)
    case 0
    with i show ?thesis by (simp add: dollarAt_0)
  next
    case (Suc j)
    with i have "dollarAt (c = CHR 0x5C) cs j" by (simp add: dollarAt_Suc)
    then show ?thesis by blast
  qed
next
  assume "(c = CHR ''$'' \<and> \<not> escaping) \<or> (\<exists>j. dollarAt (c = CHR 0x5C) cs j)"
  then show "\<exists>i. dollarAt escaping (c # cs) i"
  proof
    assume "c = CHR ''$'' \<and> \<not> escaping"
    then have "dollarAt escaping (c # cs) 0" by (simp add: dollarAt_0)
    then show ?thesis ..
  next
    assume "\<exists>j. dollarAt (c = CHR 0x5C) cs j"
    then obtain j where "dollarAt (c = CHR 0x5C) cs j" ..
    then have "dollarAt escaping (c # cs) (Suc j)" by (simp add: dollarAt_Suc)
    then show ?thesis ..
  qed
qed

lemma unescapeLoop_fails:
  "(\<exists>e. unescapeLoop attr cs escaping result = Inl e) \<longleftrightarrow> (\<exists>i. dollarAt escaping cs i)"
proof (induction cs arbitrary: escaping result)
  case Nil
  then show ?case by (simp add: dollarAt_def)
next
  case (Cons c cs)
  show ?case
  proof (cases "c = CHR 0x5C")
    case True
    have "(\<exists>e. unescapeLoop attr (c # cs) escaping result = Inl e)
        \<longleftrightarrow> (\<exists>e. unescapeLoop attr cs True result = Inl e)"
      using True by simp
    also have "\<dots> \<longleftrightarrow> (\<exists>j. dollarAt True cs j)" by (rule Cons.IH)
    also have "\<dots> \<longleftrightarrow> (\<exists>i. dollarAt escaping (c # cs) i)"
      unfolding dollarAt_Cons using True by simp
    finally show ?thesis .
  next
    case False
    show ?thesis
    proof (cases "c = CHR ''$'' \<and> \<not> escaping")
      case True
      then have "\<exists>e. unescapeLoop attr (c # cs) escaping result = Inl e" by simp
      moreover have "\<exists>i. dollarAt escaping (c # cs) i"
        unfolding dollarAt_Cons using True by simp
      ultimately show ?thesis by simp
    next
      case nd: False
      have "(\<exists>e. unescapeLoop attr (c # cs) escaping result = Inl e)
          \<longleftrightarrow> (\<exists>e. unescapeLoop attr cs False (result @ [c]) = Inl e)"
        using False nd by (cases "c = CHR ''$''") simp_all
      also have "\<dots> \<longleftrightarrow> (\<exists>j. dollarAt False cs j)" by (rule Cons.IH)
      also have "\<dots> \<longleftrightarrow> (\<exists>i. dollarAt escaping (c # cs) i)"
        unfolding dollarAt_Cons using False nd by (cases "c = CHR ''$''") simp_all
      finally show ?thesis .
    qed
  qed
qed

lemma dollarAt_False: "dollarAt False a i = unescapedDollarAt a i"
  by (cases "i = 0") (simp_all add: dollarAt_def unescapedDollarAt_def)

lemma unescapeAttribute_fails:
  "(\<exists>e. unescapeAttribute a = Inl e) \<longleftrightarrow> (\<exists>i. unescapedDollarAt a i)"
  unfolding unescapeAttribute_def unescapeLoop_fails dollarAt_False ..

lemma unescapeAttribute_error: "unescapeAttribute a = Inl e \<Longrightarrow> e = UnescapedDollar a"
proof -
  have "unescapeLoop attr cs escaping result = Inl e \<Longrightarrow> e = UnescapedDollar attr"
    for attr cs escaping result
    by (induction cs arbitrary: escaping result) (auto split: if_splits)
  then show "unescapeAttribute a = Inl e \<Longrightarrow> e = UnescapedDollar a"
    unfolding unescapeAttribute_def by blast
qed


lemma parse_step_fails: "(\<exists>e. parse_step m st = Inl e) \<longleftrightarrow> parse_fails_on (inNot st) m"
proof (cases m)
  case (ATTRIBUTE a v)
  have "(\<exists>e. parse_step m st = Inl e) \<longleftrightarrow> (\<exists>e. unescapeAttribute a = Inl e)"
    by (cases "unescapeAttribute a") (simp_all add: ATTRIBUTE parse_step_def)
  then show ?thesis by (simp add: ATTRIBUTE unescapeAttribute_fails parse_fails_on_def)
qed (simp_all add: parse_step_def Let_def parse_fails_on_def)

lemma inNot_on_current [simp]: "inNot (on_current f st) = inNot st"
  by (simp add: on_current_def Let_def)

lemma parse_step_inNot:
  "parse_step m st = Inr st' \<Longrightarrow> inNot st' = inNotFrom (inNot st) [m]"
  by (cases m) (auto simp: parse_step_def Let_def split: if_splits sum.splits)

lemma parse_fails_in_Nil [simp]: "\<not> parse_fails_in b []"
  by (simp add: parse_fails_in_def)

lemma parse_fails_in_Cons:
  "parse_fails_in b (m # ms) \<longleftrightarrow> parse_fails_on b m \<or> parse_fails_in (inNotFrom b [m]) ms"
proof
  assume "parse_fails_in b (m # ms)"
  then obtain pre m' post where eq: "m # ms = pre @ m' # post"
    and bad: "parse_fails_on (inNotFrom b pre) m'"
    unfolding parse_fails_in_def by blast
  show "parse_fails_on b m \<or> parse_fails_in (inNotFrom b [m]) ms"
  proof (cases pre)
    case Nil
    with eq bad show ?thesis by simp
  next
    case (Cons p pre')
    with eq have "ms = pre' @ m' # post" and "p = m" by simp_all
    moreover from bad Cons \<open>p = m\<close> have "parse_fails_on (inNotFrom (inNotFrom b [m]) pre') m'" by simp
    ultimately show ?thesis unfolding parse_fails_in_def by blast
  qed
next
  assume "parse_fails_on b m \<or> parse_fails_in (inNotFrom b [m]) ms"
  then show "parse_fails_in b (m # ms)"
  proof
    assume "parse_fails_on b m"
    then have "m # ms = [] @ m # ms \<and> parse_fails_on (inNotFrom b []) m" by simp
    then show ?thesis unfolding parse_fails_in_def by blast
  next
    assume "parse_fails_in (inNotFrom b [m]) ms"
    then obtain pre m' post where "ms = pre @ m' # post"
      and "parse_fails_on (inNotFrom (inNotFrom b [m]) pre) m'"
      unfolding parse_fails_in_def by blast
    then have "m # ms = (m # pre) @ m' # post \<and> parse_fails_on (inNotFrom b (m # pre)) m'" by simp
    then show ?thesis unfolding parse_fails_in_def by blast
  qed
qed

lemma parse_steps_fails:
  "(\<exists>e. parse_steps ms st = Inl e) \<longleftrightarrow> parse_fails_in (inNot st) ms"
proof (induction ms arbitrary: st)
  case Nil
  then show ?case by simp
next
  case (Cons m ms)
  show ?case
  proof (cases "parse_step m st")
    case (Inl e)
    then have "parse_fails_on (inNot st) m" using parse_step_fails [of m st] by blast
    then show ?thesis using Inl by (simp add: parse_fails_in_Cons)
  next
    case (Inr st1)
    then have nb: "\<not> parse_fails_on (inNot st) m" using parse_step_fails [of m st] by auto
    have "(\<exists>e. parse_steps (m # ms) st = Inl e) \<longleftrightarrow> (\<exists>e. parse_steps ms st1 = Inl e)"
      using Inr by simp
    also have "\<dots> \<longleftrightarrow> parse_fails_in (inNot st1) ms" by (rule Cons.IH)
    also have "\<dots> \<longleftrightarrow> parse_fails_in (inNotFrom (inNot st) [m]) ms"
      using parse_step_inNot [OF Inr] by simp
    also have "\<dots> \<longleftrightarrow> parse_fails_in (inNot st) (m # ms)"
      using nb by (simp only: parse_fails_in_Cons [of "inNot st" m ms] simp_thms)
    finally show ?thesis .
  qed
qed

text \<open>
  C5: \<open>parse\<close> raises an error exactly when one of the matches of the text is a
  \<open>:not(\<close> met inside an open \<open>:not(\<close>, a separator met inside an open
  \<open>:not(\<close>, or an attribute whose name holds an unescaped \<open>$\<close>; on every other text
  it returns. \<open>parse("a:not(b:not(c))")\<close> raises the nesting error and
  \<open>parse("a:not(b, c)")\<close> the multiple-selectors error.
\<close>

theorem parse_raises:
  "((\<exists>e. parse s = Inl e) \<longleftrightarrow> parse_fails_in False (matches s))
   \<and> parse ''a:not(b:not(c))'' = Inl NestingNot
   \<and> parse ''a:not(b, c)'' = Inl MultipleSelectorsInNot"
proof (intro conjI)
  have "(\<exists>e. parse s = Inl e)
      \<longleftrightarrow> (\<exists>e. parse_loop s \<lparr>results = [], cssSelector = new_CssSelector, inNot = False\<rparr> = Inl e)"
    by (cases "parse_loop s \<lparr>results = [], cssSelector = new_CssSelector, inNot = False\<rparr>")
      (simp_all add: parse_def)
  also have "\<dots> \<longleftrightarrow> parse_fails_in False (matches s)"
    unfolding parse_loop_steps parse_steps_fails by simp
  finally show "(\<exists>e. parse s = Inl e) \<longleftrightarrow> parse_fails_in False (matches s)" .
next
  show "parse ''a:not(b:not(c))'' = Inl NestingNot" by code_simp
next
  show "parse ''a:not(b, c)'' = Inl MultipleSelectorsInNot" by code_simp
qed

theorem parse_raises_witness:
  "parse ''[na$me]'' = Inl (UnescapedDollar ''na$me'') \<and> parse_fails_in False (matches ''[na$me]'')
   \<and> parse ''a:not(b)'' = Inr [CssSelector (Some ''a'') [] [] [CssSelector (Some ''b'') [] [] []]]
   \<and> \<not> parse_fails_in False (matches ''a:not(b)'')"
proof -
  have a: "parse ''[na$me]'' = Inl (UnescapedDollar ''na$me'')" by code_simp
  have b: "parse ''a:not(b)'' = Inr [CssSelector (Some ''a'') [] [] [CssSelector (Some ''b'') [] [] []]]"
    by code_simp
  from a parse_raises [of "''[na$me]''"] have "parse_fails_in False (matches ''[na$me]'')" by simp
  moreover from b parse_raises [of "''a:not(b)''"] have "\<not> parse_fails_in False (matches ''a:not(b)'')"
    by simp
  ultimately show ?thesis using a b by simp
qed



subsection \<open>Serializing and parsing again\<close>

text \<open>
  C3 at the text \<open>[\\]\<close> (an attribute whose name is one backslash): \<open>parse\<close>
  accepts it and unescapes the name to the empty string, \<open>toString\<close> prints the
  selector as \<open>[]\<close>, and \<open>parse\<close> finds no attribute in \<open>[]\<close>.
\<close>

theorem toString_parse_empty_attribute_name:
  "parse [CHR ''['', CHR 0x5C, CHR '']''] = Inr [CssSelector None [] [([], [])] []]
   \<and> selectorsToString [CssSelector None [] [([], [])] []] = ''[]''
   \<and> parse ''[]'' = Inr [CssSelector None [] [] []]"
  by code_simp

section \<open>Properties of the matcher\<close>

subsection \<open>The probes of a query\<close>

lemma nested_size:
  "map_of (elementPartialMap M) k = Some N \<Longrightarrow> size N < size M"
  "map_of (classPartialMap M) k = Some N \<Longrightarrow> size N < size M"
  "map_of (attrValuePartialMap M) k = Some pm \<Longrightarrow> map_of pm k' = Some N \<Longrightarrow> size N < size M"
proof -
  show "map_of (elementPartialMap M) k = Some N \<Longrightarrow> size N < size M"
    using map_of_partialSize [of "elementPartialMap M" k N] partialSize_fields(1) [of M] by simp
  show "map_of (classPartialMap M) k = Some N \<Longrightarrow> size N < size M"
    using map_of_partialSize [of "classPartialMap M" k N] partialSize_fields(2) [of M] by simp
  show "map_of (attrValuePartialMap M) k = Some pm \<Longrightarrow> map_of pm k' = Some N \<Longrightarrow> size N < size M"
    using map_of_partialSize [of pm k' N] partialSize_fields(3) [of M k pm] by simp
qed

text \<open>
  The entries that \<open>match\<close> hands to \<open>finalize\<close>, in order: the walk of \<open>match\<close>
  with every call of \<open>finalize\<close> replaced by the entry it is called on. Which entries
  are reached depends on the maps and the query only, never on the store.
\<close>

definition terminalProbes ::
  "(string \<times> 'c SelectorContext list) list option \<Rightarrow> string option \<Rightarrow> 'c SelectorContext list" where
  "terminalProbes mo name =
     (case mo of
        None \<Rightarrow> []
      | Some m \<Rightarrow>
          (case name of
             None \<Rightarrow> []
           | Some n \<Rightarrow>
               (case map_of m n of None \<Rightarrow> [] | Some l \<Rightarrow> l)
               @ (case map_of m ''*'' of None \<Rightarrow> [] | Some l \<Rightarrow> l)))"

function probes :: "'c SelectorMatcher \<Rightarrow> CssSelector \<Rightarrow> 'c SelectorContext list" where
  "probes M q =
     terminalProbes (Some (elementMap M)) (element q)
     @ (case element q of
          None \<Rightarrow> []
        | Some n \<Rightarrow> (case map_of (elementPartialMap M) n of None \<Rightarrow> [] | Some N \<Rightarrow> probes N q))
     @ concat (map (\<lambda>c.
          terminalProbes (Some (classMap M)) (Some c)
          @ (case map_of (classPartialMap M) c of None \<Rightarrow> [] | Some N \<Rightarrow> probes N q))
        (classNames q))
     @ concat (map (\<lambda>(n, v).
          (if v \<noteq> [] then terminalProbes (map_of (attrValueMap M) n) (Some []) else [])
          @ terminalProbes (map_of (attrValueMap M) n) (Some v)
          @ (case map_of (attrValuePartialMap M) n of
               None \<Rightarrow> []
             | Some pm \<Rightarrow>
                 (if v \<noteq> [] then (case map_of pm [] of None \<Rightarrow> [] | Some N \<Rightarrow> probes N q) else [])
                 @ (case map_of pm v of None \<Rightarrow> [] | Some N \<Rightarrow> probes N q)))
        (attrs q))"
  by pat_completeness auto
termination
  by (relation "measure (\<lambda>(M, q). size M)") (auto simp: nested_size)

declare probes.simps [simp del]

definition partialProbes ::
  "(string \<times> 'c SelectorMatcher) list option \<Rightarrow> string option \<Rightarrow> CssSelector \<Rightarrow> 'c SelectorContext list" where
  "partialProbes mo name q =
     (case mo of
        None \<Rightarrow> []
      | Some m \<Rightarrow>
          (case name of
             None \<Rightarrow> []
           | Some n \<Rightarrow> (case map_of m n of None \<Rightarrow> [] | Some N \<Rightarrow> probes N q)))"

definition classProbes :: "'c SelectorMatcher \<Rightarrow> CssSelector \<Rightarrow> string \<Rightarrow> 'c SelectorContext list" where
  "classProbes M q c =
     terminalProbes (Some (classMap M)) (Some c) @ partialProbes (Some (classPartialMap M)) (Some c) q"

definition attrProbes ::
  "'c SelectorMatcher \<Rightarrow> CssSelector \<Rightarrow> string \<times> string \<Rightarrow> 'c SelectorContext list" where
  "attrProbes M q a =
     (if snd a \<noteq> [] then terminalProbes (map_of (attrValueMap M) (fst a)) (Some []) else [])
     @ terminalProbes (map_of (attrValueMap M) (fst a)) (Some (snd a))
     @ (if snd a \<noteq> [] then partialProbes (map_of (attrValuePartialMap M) (fst a)) (Some []) q else [])
     @ partialProbes (map_of (attrValuePartialMap M) (fst a)) (Some (snd a)) q"

lemma probes_eq:
  "probes M q =
     terminalProbes (Some (elementMap M)) (element q)
     @ partialProbes (Some (elementPartialMap M)) (element q) q
     @ concat (map (classProbes M q) (classNames q))
     @ concat (map (attrProbes M q) (attrs q))"
proof -
  have c: "(\<lambda>c. terminalProbes (Some (classMap M)) (Some c)
          @ (case map_of (classPartialMap M) c of None \<Rightarrow> [] | Some N \<Rightarrow> probes N q)) = classProbes M q"
    by (rule ext) (simp add: classProbes_def partialProbes_def)
  have a: "(\<lambda>(n, v).
          (if v \<noteq> [] then terminalProbes (map_of (attrValueMap M) n) (Some []) else [])
          @ terminalProbes (map_of (attrValueMap M) n) (Some v)
          @ (case map_of (attrValuePartialMap M) n of
               None \<Rightarrow> []
             | Some pm \<Rightarrow>
                 (if v \<noteq> [] then (case map_of pm [] of None \<Rightarrow> [] | Some N \<Rightarrow> probes N q) else [])
                 @ (case map_of pm v of None \<Rightarrow> [] | Some N \<Rightarrow> probes N q))) = attrProbes M q"
    by (rule ext) (auto simp: attrProbes_def partialProbes_def split: option.splits)
  show ?thesis
    by (subst probes.simps) (simp add: c a partialProbes_def)
qed


text \<open>
  Only the matcher on which \<open>addSelectables\<close> is called gets list contexts: the matchers
  that \<open>_addPartial\<close> creates below it have none, so a nested \<open>match\<close> resets nothing.
\<close>

fun noNestedListContexts :: "'c SelectorMatcher \<Rightarrow> bool" where
  "noNestedListContexts (SelectorMatcher em epm cm cpm am apm lcs) =
     ((\<forall>p\<in>set epm. listContexts (snd p) = [] \<and> noNestedListContexts (snd p))
      \<and> (\<forall>p\<in>set cpm. listContexts (snd p) = [] \<and> noNestedListContexts (snd p))
      \<and> (\<forall>p\<in>set apm. \<forall>p'\<in>set (snd p). listContexts (snd p') = [] \<and> noNestedListContexts (snd p')))"

definition nestedMatcher :: "'c SelectorMatcher \<Rightarrow> bool" where
  "nestedMatcher N = (listContexts N = [] \<and> noNestedListContexts N)"

lemma noNestedListContexts_fields:
  "noNestedListContexts M \<Longrightarrow> map_of (elementPartialMap M) k = Some N \<Longrightarrow> nestedMatcher N"
  "noNestedListContexts M \<Longrightarrow> map_of (classPartialMap M) k = Some N \<Longrightarrow> nestedMatcher N"
  "noNestedListContexts M \<Longrightarrow> map_of (attrValuePartialMap M) k = Some pm \<Longrightarrow> map_of pm k' = Some N
    \<Longrightarrow> nestedMatcher N"
  by (cases M; fastforce simp: nestedMatcher_def dest!: map_of_SomeD)+

lemma finalizeAll_append:
  "finalizeAll (xs @ ys) q cb st =
     (let (r1, st1) = finalizeAll xs q cb st; (r2, st2) = finalizeAll ys q cb st1 in (r2 \<or> r1, st2))"
  by (induction xs arbitrary: st) (auto simp: Let_def split: prod.splits)

lemma matchTerminal_probes:
  "matchTerminal mo name q cb st = finalizeAll (terminalProbes mo name) q cb st"
proof (cases mo)
  case None
  then show ?thesis by (simp add: terminalProbes_def matchTerminal.simps)
next
  case (Some m)
  show ?thesis
  proof (cases name)
    case None
    then show ?thesis by (simp add: Some terminalProbes_def matchTerminal.simps)
  next
    case n: (Some n)
    show ?thesis
      by (cases "map_of m ''*''"; cases "map_of m n")
        (auto simp: Some n terminalProbes_def Let_def matchTerminal.simps)
  qed
qed


lemma match_probes_all:
  shows "noNestedListContexts (this :: 'c SelectorMatcher) \<longrightarrow>
           match this q cb st =
             finalizeAll (probes this q) q cb
               (fold (setAlreadyMatched False) (listContexts this) (fst st), snd st)"
    and "noNestedListContexts (this2 :: 'c SelectorMatcher) \<longrightarrow>
           matchClassNames this2 cs q2 cb2 st2 = finalizeAll (concat (map (classProbes this2 q2) cs)) q2 cb2 st2"
    and "noNestedListContexts (this3 :: 'c SelectorMatcher) \<longrightarrow>
           matchAttrs this3 ats q3 cb3 st3 = finalizeAll (concat (map (attrProbes this3 q3) ats)) q3 cb3 st3"
    and "matchTerminal mo4 name4 q4 cb4 (st4 :: 'c run) = matchTerminal mo4 name4 q4 cb4 st4"
    and "finalizeAll es q5 cb5 (st5 :: 'c run) = finalizeAll es q5 cb5 st5"
    and "(\<forall>m n N. mo6 = Some m \<longrightarrow> name6 = Some n \<longrightarrow> map_of m n = Some N \<longrightarrow> nestedMatcher N) \<longrightarrow>
           matchPartial mo6 name6 q6 cb6 (st6 :: 'c run) = finalizeAll (partialProbes mo6 name6 q6) q6 cb6 st6"
    and "finalize e q7 cb7 (st7 :: 'c run) = finalize e q7 cb7 st7"
proof (induction this q cb st and this2 cs q2 cb2 st2 and this3 ats q3 cb3 st3
    and mo4 name4 q4 cb4 st4 and es q5 cb5 st5 and mo6 name6 q6 cb6 st6 and e q7 cb7 st7
    rule: match_matchClassNames_matchAttrs_matchTerminal_finalizeAll_matchPartial_finalize.induct)
  case (1 this cssSel callback st)
  show ?case
  proof
    assume ok: "noNestedListContexts this"
    define st0 where "st0 = (fold (setAlreadyMatched False) (listContexts this) (fst st), snd st)"
    obtain r1 st1 where e1: "matchTerminal (Some (elementMap this)) (element cssSel) cssSel callback st0 = (r1, st1)"
      by (cases "matchTerminal (Some (elementMap this)) (element cssSel) cssSel callback st0")
    obtain r2 st2 where e2: "matchPartial (Some (elementPartialMap this)) (element cssSel) cssSel callback st1 = (r2, st2)"
      by (cases "matchPartial (Some (elementPartialMap this)) (element cssSel) cssSel callback st1")
    obtain r3 st3 where e3: "matchClassNames this (classNames cssSel) cssSel callback st2 = (r3, st3)"
      by (cases "matchClassNames this (classNames cssSel) cssSel callback st2")
    obtain r4 st4 where e4: "matchAttrs this (attrs cssSel) cssSel callback st3 = (r4, st4)"
      by (cases "matchAttrs this (attrs cssSel) cssSel callback st3")
    have p1: "finalizeAll (terminalProbes (Some (elementMap this)) (element cssSel)) cssSel callback st0 = (r1, st1)"
      using e1 by (simp add: matchTerminal_probes)
    have kids: "\<forall>m n N. Some (elementPartialMap this) = Some m \<longrightarrow> element cssSel = Some n
        \<longrightarrow> map_of m n = Some N \<longrightarrow> nestedMatcher N"
      using ok by (auto dest: noNestedListContexts_fields(1))
    have p2: "finalizeAll (partialProbes (Some (elementPartialMap this)) (element cssSel) cssSel) cssSel callback st1 = (r2, st2)"
      using "1.IH"(2) [OF st0_def refl e1 [symmetric]] kids e2 by simp
    have p3: "finalizeAll (concat (map (classProbes this cssSel) (classNames cssSel))) cssSel callback st2 = (r3, st3)"
      using "1.IH"(3) [OF st0_def refl e1 [symmetric] refl e2 [symmetric]] ok e3 by simp
    have p4: "finalizeAll (concat (map (attrProbes this cssSel) (attrs cssSel))) cssSel callback st3 = (r4, st4)"
      using "1.IH"(4) [OF st0_def refl e1 [symmetric] refl e2 [symmetric] refl e3 [symmetric]] ok e4 by simp
    have "match this cssSel callback st = (r4 \<or> r3 \<or> r2 \<or> r1, st4)"
      by (simp add: match.simps [of this cssSel callback st] st0_def [symmetric] e1 e2 e3 e4)
    moreover have "finalizeAll (probes this cssSel) cssSel callback st0 = (r4 \<or> r3 \<or> r2 \<or> r1, st4)"
      by (simp add: probes_eq finalizeAll_append p1 p2 p3 p4)
    ultimately show "match this cssSel callback st =
        finalizeAll (probes this cssSel) cssSel callback
          (fold (setAlreadyMatched False) (listContexts this) (fst st), snd st)"
      by (simp add: st0_def)
  qed
next
  case (2 this cssSel callback st)
  show ?case by simp
next
  case (3 this className rest cssSel callback st)
  show ?case
  proof
    assume ok: "noNestedListContexts this"
    obtain r1 st1 where e1: "matchTerminal (Some (classMap this)) (Some className) cssSel callback st = (r1, st1)"
      by (cases "matchTerminal (Some (classMap this)) (Some className) cssSel callback st")
    obtain r2 st2 where e2: "matchPartial (Some (classPartialMap this)) (Some className) cssSel callback st1 = (r2, st2)"
      by (cases "matchPartial (Some (classPartialMap this)) (Some className) cssSel callback st1")
    obtain r3 st3 where e3: "matchClassNames this rest cssSel callback st2 = (r3, st3)"
      by (cases "matchClassNames this rest cssSel callback st2")
    have p1: "finalizeAll (terminalProbes (Some (classMap this)) (Some className)) cssSel callback st = (r1, st1)"
      using e1 by (simp add: matchTerminal_probes)
    have kids: "\<forall>m n N. Some (classPartialMap this) = Some m \<longrightarrow> Some className = Some n
        \<longrightarrow> map_of m n = Some N \<longrightarrow> nestedMatcher N"
      using ok by (auto dest: noNestedListContexts_fields(2))
    have p2: "finalizeAll (partialProbes (Some (classPartialMap this)) (Some className) cssSel) cssSel callback st1 = (r2, st2)"
      using "3.IH"(2) [OF refl e1 [symmetric]] kids e2 by simp
    have p3: "finalizeAll (concat (map (classProbes this cssSel) rest)) cssSel callback st2 = (r3, st3)"
      using "3.IH"(3) [OF refl e1 [symmetric] refl e2 [symmetric]] ok e3 by simp
    show "matchClassNames this (className # rest) cssSel callback st =
        finalizeAll (concat (map (classProbes this cssSel) (className # rest))) cssSel callback st"
      by (simp add: e1 e2 e3 classProbes_def finalizeAll_append p1 p2 p3)
  qed
next
  case (4 this cssSel callback st)
  show ?case by simp
next
  case (5 this name "value" rest cssSel callback st)
  show ?case
  proof
    assume ok: "noNestedListContexts this"
    define tm where "tm = map_of (attrValueMap this) name"
    define pm where "pm = map_of (attrValuePartialMap this) name"
    obtain r1 st1 where e1: "(if value \<noteq> [] then matchTerminal tm (Some []) cssSel callback st else (False, st)) = (r1, st1)"
      by (cases "if value \<noteq> [] then matchTerminal tm (Some []) cssSel callback st else (False, st)")
    obtain r2 st2 where e2: "matchTerminal tm (Some value) cssSel callback st1 = (r2, st2)"
      by (cases "matchTerminal tm (Some value) cssSel callback st1")
    obtain r3 st3 where e3: "(if value \<noteq> [] then matchPartial pm (Some []) cssSel callback st2 else (False, st2)) = (r3, st3)"
      by (cases "if value \<noteq> [] then matchPartial pm (Some []) cssSel callback st2 else (False, st2)")
    obtain r4 st4 where e4: "matchPartial pm (Some value) cssSel callback st3 = (r4, st4)"
      by (cases "matchPartial pm (Some value) cssSel callback st3")
    obtain r5 st5 where e5: "matchAttrs this rest cssSel callback st4 = (r5, st5)"
      by (cases "matchAttrs this rest cssSel callback st4")
    have kids: "\<forall>m n N. pm = Some m \<longrightarrow> Some k = Some n \<longrightarrow> map_of m n = Some N \<longrightarrow> nestedMatcher N" for k
      using ok unfolding pm_def by (auto dest: noNestedListContexts_fields(3))
    define seg1 where "seg1 = (if value \<noteq> [] then terminalProbes tm (Some []) else [])"
    define seg3 where "seg3 = (if value \<noteq> [] then partialProbes pm (Some []) cssSel else [])"
    have p1: "finalizeAll seg1 cssSel callback st = (r1, st1)"
      using e1 unfolding seg1_def by (cases "value = []") (simp_all add: matchTerminal_probes)
    have p2: "finalizeAll (terminalProbes tm (Some value)) cssSel callback st1 = (r2, st2)"
      using e2 by (simp add: matchTerminal_probes)
    have p3: "finalizeAll seg3 cssSel callback st2 = (r3, st3)"
    proof (cases "value = []")
      case True
      with e3 show ?thesis by (simp add: seg3_def)
    next
      case False
      then show ?thesis
        using "5.IH"(3) [OF tm_def refl e1 [symmetric] refl e2 [symmetric] pm_def False] kids e3
        by (simp add: seg3_def)
    qed
    have p4: "finalizeAll (partialProbes pm (Some value) cssSel) cssSel callback st3 = (r4, st4)"
      using "5.IH"(4) [OF tm_def refl e1 [symmetric] refl e2 [symmetric] pm_def refl e3 [symmetric]] kids e4
      by simp
    have p5: "finalizeAll (concat (map (attrProbes this cssSel) rest)) cssSel callback st4 = (r5, st5)"
      using "5.IH"(5) [OF tm_def refl e1 [symmetric] refl e2 [symmetric] pm_def refl e3 [symmetric] refl e4 [symmetric]]
        ok e5 by simp
    have "matchAttrs this ((name, value) # rest) cssSel callback st = (r5 \<or> r4 \<or> r3 \<or> r2 \<or> r1, st5)"
      by (simp add: tm_def [symmetric] pm_def [symmetric] e1 e2 e3 e4 e5 del: if_split)
    moreover have "attrProbes this cssSel (name, value)
        = seg1 @ terminalProbes tm (Some value) @ seg3 @ partialProbes pm (Some value) cssSel"
      by (simp add: attrProbes_def seg1_def seg3_def tm_def pm_def)
    then have "finalizeAll (concat (map (attrProbes this cssSel) ((name, value) # rest))) cssSel callback st
        = (r5 \<or> r4 \<or> r3 \<or> r2 \<or> r1, st5)"
      by (simp add: finalizeAll_append p1 p2 p3 p4 p5)
    ultimately show "matchAttrs this ((name, value) # rest) cssSel callback st =
        finalizeAll (concat (map (attrProbes this cssSel) ((name, value) # rest))) cssSel callback st"
      by simp
  qed
next
  case (13 m name cssSel callback st)
  show ?case
  proof (cases "map_of m name")
    case None
    then show ?thesis by (simp add: partialProbes_def matchPartial.simps)
  next
    case (Some N)
    show ?thesis
    proof
      assume "\<forall>m' n N. Some m = Some m' \<longrightarrow> Some name = Some n \<longrightarrow> map_of m' n = Some N \<longrightarrow> nestedMatcher N"
      with Some have n: "nestedMatcher N" by blast
      then have "match N cssSel callback st = finalizeAll (probes N cssSel) cssSel callback st"
        using "13.IH" [OF Some] by (simp add: nestedMatcher_def)
      then show "matchPartial (Some m) (Some name) cssSel callback st =
          finalizeAll (partialProbes (Some m) (Some name) cssSel) cssSel callback st"
        by (simp add: Some partialProbes_def matchPartial.simps)
    qed
  qed
qed (simp_all add: partialProbes_def matchPartial.simps)

lemma match_probes:
  "noNestedListContexts M \<Longrightarrow>
     match M q cb st =
       finalizeAll (probes M q) q cb (fold (setAlreadyMatched False) (listContexts M) (fst st), snd st)"
  using match_probes_all(1) [of M q cb st] by simp


lemma noNestedListContexts_iff:
  "noNestedListContexts (SelectorMatcher em epm cm cpm am apm lcs) \<longleftrightarrow>
     (\<forall>p\<in>set epm. nestedMatcher (snd p)) \<and> (\<forall>p\<in>set cpm. nestedMatcher (snd p))
     \<and> (\<forall>p\<in>set apm. \<forall>p'\<in>set (snd p). nestedMatcher (snd p'))"
  by (simp add: nestedMatcher_def)

lemma nestedMatcher_new [simp]: "nestedMatcher new_SelectorMatcher"
  by (simp add: nestedMatcher_def new_SelectorMatcher_def)

lemma update_ball:
  "Q v \<Longrightarrow> \<forall>p\<in>set m. Q (snd p) \<Longrightarrow> \<forall>p\<in>set (AList.update k v m). Q (snd p)"
  by (induction m) auto

lemma map_of_ball: "map_of m k = Some v \<Longrightarrow> \<forall>p\<in>set m. Q (snd p) \<Longrightarrow> Q v"
  by (auto dest!: map_of_SomeD)

lemma addPartial_nested:
  "\<forall>p\<in>set m. nestedMatcher (snd p) \<Longrightarrow> nestedMatcher (addPartial m k)"
  by (cases "map_of m k") (auto simp: addPartial_def dest: map_of_ball)

lemma map_of_default_ball:
  "\<forall>p\<in>set m. \<forall>p'\<in>set (snd p). Q (snd p')
    \<Longrightarrow> \<forall>p'\<in>set (case map_of m k of None \<Rightarrow> [] | Some x \<Rightarrow> x). Q (snd p')"
proof (cases "map_of m k")
  case None
  then show ?thesis by simp
next
  case (Some a)
  assume all: "\<forall>p\<in>set m. \<forall>p'\<in>set (snd p). Q (snd p')"
  from Some have "(k, a) \<in> set m" by (rule map_of_SomeD)
  with all have "\<forall>p'\<in>set a. Q (snd p')" by fastforce
  then show ?thesis using Some by simp
qed

lemma addAttrs_nested:
  "noNestedListContexts M \<Longrightarrow>
     noNestedListContexts (addAttrs M ats e) \<and> listContexts (addAttrs M ats e) = listContexts M"
proof (induction M ats e rule: addAttrs.induct)
  case (1 matcher selectable)
  then show ?case by simp
next
  case (2 matcher name "value" rest selectable)
  obtain em epm cm cpm am apm lcs where M: "matcher = SelectorMatcher em epm cm cpm am apm lcs"
    by (cases matcher)
  from "2.prems" have ok: "(\<forall>p\<in>set epm. nestedMatcher (snd p))" "(\<forall>p\<in>set cpm. nestedMatcher (snd p))"
    "(\<forall>p\<in>set apm. \<forall>p'\<in>set (snd p). nestedMatcher (snd p'))"
    unfolding M noNestedListContexts_iff by simp_all
  show ?case
  proof (cases "rest = []")
    case True
    then show ?thesis using ok unfolding M by (simp add: Let_def nestedMatcher_def)
  next
    case False
    define pvm where "pvm = (case map_of apm name of None \<Rightarrow> [] | Some m \<Rightarrow> m)"
    define nested where "nested = addAttrs (addPartial pvm value) rest selectable"
    have pvm: "\<forall>p'\<in>set pvm. nestedMatcher (snd p')"
      unfolding pvm_def using ok(3) by (rule map_of_default_ball)
    then have child: "nestedMatcher (addPartial pvm value)" by (rule addPartial_nested)
    then have "noNestedListContexts nested \<and> listContexts nested = listContexts (addPartial pvm value)"
      unfolding nested_def pvm_def using "2.IH" [OF False refl refl] by (simp add: M nestedMatcher_def)
    with child have n: "nestedMatcher nested" by (simp add: nestedMatcher_def)
    have "\<forall>p'\<in>set (AList.update value nested pvm). nestedMatcher (snd p')"
      using n pvm by (rule update_ball)
    then have "\<forall>p\<in>set (AList.update name (AList.update value nested pvm) apm).
        \<forall>p'\<in>set (snd p). nestedMatcher (snd p')"
      using ok(3) by (rule update_ball [where Q="\<lambda>vm. \<forall>p'\<in>set vm. nestedMatcher (snd p')"])
    moreover have eq: "addAttrs (SelectorMatcher em epm cm cpm am apm lcs) ((name, value) # rest) selectable
          = SelectorMatcher em epm cm cpm am (AList.update name (AList.update value nested pvm) apm) lcs"
      using False by (simp add: Let_def pvm_def nested_def)
    ultimately show ?thesis
      unfolding M eq noNestedListContexts_iff using ok by simp
  qed
qed

lemma addClassNames_nested:
  "noNestedListContexts M \<Longrightarrow>
     noNestedListContexts (addClassNames M cs ats e) \<and> listContexts (addClassNames M cs ats e) = listContexts M"
proof (induction M cs ats e rule: addClassNames.induct)
  case (1 matcher ats selectable)
  then show ?case by (simp add: addAttrs_nested)
next
  case (2 matcher className rest ats selectable)
  obtain em epm cm cpm am apm lcs where M: "matcher = SelectorMatcher em epm cm cpm am apm lcs"
    by (cases matcher)
  from "2.prems" have ok: "(\<forall>p\<in>set epm. nestedMatcher (snd p))" "(\<forall>p\<in>set cpm. nestedMatcher (snd p))"
    "(\<forall>p\<in>set apm. \<forall>p'\<in>set (snd p). nestedMatcher (snd p'))"
    unfolding M noNestedListContexts_iff by simp_all
  show ?case
  proof (cases "length ats = 0 \<and> rest = []")
    case True
    then show ?thesis using ok unfolding M by (simp add: nestedMatcher_def)
  next
    case False
    define nested where "nested = addClassNames (addPartial cpm className) rest ats selectable"
    have child: "nestedMatcher (addPartial cpm className)" using ok(2) by (rule addPartial_nested)
    then have "noNestedListContexts nested \<and> listContexts nested = listContexts (addPartial cpm className)"
      unfolding nested_def using "2.IH" [OF False] by (simp add: M nestedMatcher_def)
    with child have n: "nestedMatcher nested" by (simp add: nestedMatcher_def)
    have "\<forall>p\<in>set (AList.update className nested cpm). nestedMatcher (snd p)"
      using n ok(2) by (rule update_ball)
    moreover have eq: "addClassNames (SelectorMatcher em epm cm cpm am apm lcs) (className # rest) ats selectable
          = SelectorMatcher em epm cm (AList.update className nested cpm) am apm lcs"
      using False by (auto simp: Let_def nested_def)
    ultimately show ?thesis
      unfolding M eq noNestedListContexts_iff using ok by simp
  qed
qed

lemma addSelectable_nested:
  "noNestedListContexts M \<Longrightarrow>
     noNestedListContexts (addSelectable M s ctx lc) \<and> listContexts (addSelectable M s ctx lc) = listContexts M"
proof -
  assume prem: "noNestedListContexts M"
  obtain em epm cm cpm am apm lcs where M: "M = SelectorMatcher em epm cm cpm am apm lcs"
    by (cases M)
  from prem have ok: "(\<forall>p\<in>set epm. nestedMatcher (snd p))" "(\<forall>p\<in>set cpm. nestedMatcher (snd p))"
    "(\<forall>p\<in>set apm. \<forall>p'\<in>set (snd p). nestedMatcher (snd p'))"
    unfolding M noNestedListContexts_iff by simp_all
  define e where "e = SelectorContext s ctx lc"
  show ?thesis
  proof (cases "truthy (element s)")
    case False
    then have "addSelectable M s ctx lc = addClassNames M (classNames s) (attrs s) e"
      by (auto simp: addSelectable_def truthy_def e_def split: option.splits)
    then show ?thesis using prem by (simp add: addClassNames_nested)
  next
    case True
    then obtain el where el: "element s = Some el" "el \<noteq> []"
      by (auto simp: truthy_def split: option.splits)
    show ?thesis
    proof (cases "length (attrs s) = 0 \<and> length (classNames s) = 0")
      case True
      have eq: "addSelectable (SelectorMatcher em epm cm cpm am apm lcs) s ctx lc
            = SelectorMatcher (addTerminal em el e) epm cm cpm am apm lcs"
        using True el by (simp add: addSelectable_def e_def)
      show ?thesis unfolding M eq noNestedListContexts_iff using ok by simp
    next
      case False
      define nested where "nested = addClassNames (addPartial epm el) (classNames s) (attrs s) e"
      have child: "nestedMatcher (addPartial epm el)" using ok(1) by (rule addPartial_nested)
      then have "noNestedListContexts nested \<and> listContexts nested = listContexts (addPartial epm el)"
        unfolding nested_def by (intro addClassNames_nested) (simp add: nestedMatcher_def)
      with child have n: "nestedMatcher nested" by (simp add: nestedMatcher_def)
      have "\<forall>p\<in>set (AList.update el nested epm). nestedMatcher (snd p)"
        using n ok(1) by (rule update_ball)
      moreover have eq: "addSelectable (SelectorMatcher em epm cm cpm am apm lcs) s ctx lc
            = SelectorMatcher em (AList.update el nested epm) cm cpm am apm lcs"
        using False el by (auto simp: addSelectable_def e_def nested_def Let_def)
      ultimately show ?thesis
        unfolding M eq noNestedListContexts_iff using ok by simp
    qed
  qed
qed

lemma foldl_addSelectable_nested:
  "noNestedListContexts M \<Longrightarrow>
     noNestedListContexts (foldl (\<lambda>m c. addSelectable m c ctx lc) M sels)
     \<and> listContexts (foldl (\<lambda>m c. addSelectable m c ctx lc) M sels) = listContexts M"
  by (induction sels arbitrary: M) (simp_all add: addSelectable_nested)

lemma noNestedListContexts_listContexts_upd:
  "noNestedListContexts (SelectorMatcher (elementMap M) (elementPartialMap M) (classMap M)
      (classPartialMap M) (attrValueMap M) (attrValuePartialMap M) l) = noNestedListContexts M"
  by (cases M) simp

lemma addSelectables_nested:
  "noNestedListContexts M \<Longrightarrow>
     noNestedListContexts (fst (addSelectables M sels ctx store))
     \<and> listContexts (fst (addSelectables M sels ctx store))
         = (if length sels > 1 then listContexts M @ [length store] else listContexts M)"
proof -
  assume ok: "noNestedListContexts M"
  define M' where "M' = SelectorMatcher (elementMap M) (elementPartialMap M) (classMap M)
    (classPartialMap M) (attrValueMap M) (attrValuePartialMap M) (listContexts M @ [length store])"
  have ok': "noNestedListContexts M'"
    unfolding M'_def using ok by (cases M) simp
  have lc: "listContexts M' = listContexts M @ [length store]" by (simp add: M'_def)
  show ?thesis
  proof (cases "length sels > 1")
    case True
    then have "fst (addSelectables M sels ctx store)
        = foldl (\<lambda>m c. addSelectable m c ctx (Some (length store))) M' sels"
      by (simp add: addSelectables_def Let_def M'_def)
    then show ?thesis
      using True foldl_addSelectable_nested [OF ok', of ctx "Some (length store)" sels] lc by simp
  next
    case False
    then have "fst (addSelectables M sels ctx store) = foldl (\<lambda>m c. addSelectable m c ctx None) M sels"
      by (simp add: addSelectables_def Let_def)
    then show ?thesis
      using False foldl_addSelectable_nested [OF ok, of ctx None sels] by simp
  qed
qed

lemma addSelectables_store:
  "snd (addSelectables M sels ctx store)
     = (if length sels > 1 then store @ [\<lparr>selectors = sels, alreadyMatched = False\<rparr>] else store)"
  by (simp add: addSelectables_def Let_def)



subsection \<open>Matchers built by addSelectables\<close>

text \<open>
  A matcher in use: \<open>new SelectorMatcher()\<close> followed by the calls
  \<open>addSelectables(cssSelectors, callbackCtxt)\<close> of a list of batches, with its store.
\<close>

definition addSelectablesAll ::
  "(CssSelector list \<times> 'c option) list \<Rightarrow> 'c SelectorMatcher \<times> SelectorListContext list" where
  "addSelectablesAll batches =
     foldl (\<lambda>(this, store) (cssSelectors, callbackCtxt). addSelectables this cssSelectors callbackCtxt store)
       (new_SelectorMatcher, []) batches"

text \<open>What \<open>notMatcher.match(cssSelector, null)\<close> returns in \<open>finalize\<close>.\<close>

definition notMatches :: "'c SelectorContext \<Rightarrow> CssSelector \<Rightarrow> bool" where
  "notMatches this cssSel =
     (let (notMatcher, notStore) =
            (createNotMatcher (notSelectors (selector this)) :: 'c SelectorMatcher \<times> SelectorListContext list)
      in fst (match notMatcher cssSel False (notStore, [])))"

lemma finalize_eq:
  "finalize this q cb st =
     (let matched = isAlreadyMatched (listContext this) (fst st);
          result = (notSelectors (selector this) = [] \<or> matched \<or> \<not> notMatches this q)
      in if result \<and> cb \<and> \<not> matched then
           (True, (case listContext this of None \<Rightarrow> fst st | Some a \<Rightarrow> setAlreadyMatched True a (fst st)),
                  snd st @ [this])
         else (result, st))"
  by (auto simp: finalize.simps [of this q cb st] notMatches_def Let_def split: prod.splits)

lemma addSelectablesAll_Nil [simp]: "addSelectablesAll [] = (new_SelectorMatcher, [])"
  by (simp add: addSelectablesAll_def)

lemma addSelectablesAll_snoc:
  "addSelectablesAll (batches @ [(sels, ctx)]) =
     addSelectables (fst (addSelectablesAll batches)) sels ctx (snd (addSelectablesAll batches))"
  by (simp add: addSelectablesAll_def split_beta)

lemma addSelectablesAll_invariant:
  "noNestedListContexts (fst (addSelectablesAll batches))
   \<and> listContexts (fst (addSelectablesAll batches)) = [0..<length (snd (addSelectablesAll batches))]"
proof (induction batches rule: rev_induct)
  case Nil
  then show ?case by (simp add: new_SelectorMatcher_def)
next
  case (snoc b batches)
  obtain sels ctx where b: "b = (sels, ctx)" by (cases b)
  show ?case
    using snoc addSelectables_nested [of "fst (addSelectablesAll batches)" sels ctx "snd (addSelectablesAll batches)"]
    by (simp add: b addSelectablesAll_snoc addSelectables_store)
qed

lemma length_setAlreadyMatched [simp]: "length (setAlreadyMatched b a s) = length s"
  by (simp add: setAlreadyMatched_def)

lemma selectors_setAlreadyMatched [simp]:
  "map selectors (setAlreadyMatched b a s) = map selectors s"
  by (auto simp: setAlreadyMatched_def list_eq_iff_nth_eq nth_list_update)

lemma selectors_fold_setAlreadyMatched [simp]:
  "map selectors (fold (setAlreadyMatched b) as s) = map selectors s"
  by (induction as arbitrary: s) simp_all

lemma length_fold_setAlreadyMatched [simp]:
  "length (fold (setAlreadyMatched b) as s) = length s"
  by (induction as arbitrary: s) simp_all

lemma nth_setAlreadyMatched:
  "i < length s \<Longrightarrow>
     setAlreadyMatched b a s ! i = (if i = a then (s ! i)\<lparr>alreadyMatched := b\<rparr> else s ! i)"
  by (simp add: setAlreadyMatched_def)

lemma nth_fold_setAlreadyMatched:
  "n \<le> length s \<Longrightarrow> i < length s \<Longrightarrow>
     fold (setAlreadyMatched b) [0..<n] s ! i = (if i < n then (s ! i)\<lparr>alreadyMatched := b\<rparr> else s ! i)"
proof (induction n)
  case 0
  then show ?case by simp
next
  case (Suc n)
  then show ?case
    by (auto simp: nth_setAlreadyMatched less_Suc_eq)
qed

lemma reset_all:
  "fold (setAlreadyMatched False) [0..<length s] s = map (\<lambda>c. c\<lparr>alreadyMatched := False\<rparr>) s"
  by (rule nth_equalityI) (simp_all add: nth_fold_setAlreadyMatched)

lemma reset_all_cong:
  "map selectors s = map selectors s' \<Longrightarrow>
     fold (setAlreadyMatched False) [0..<length s] s = fold (setAlreadyMatched False) [0..<length s'] s'"
proof -
  assume eq: "map selectors s = map selectors s'"
  then have len: "length s = length s'" by (rule map_eq_imp_length_eq)
  have "(s ! i)\<lparr>alreadyMatched := False\<rparr> = (s' ! i)\<lparr>alreadyMatched := False\<rparr>" if "i < length s" for i
  proof -
    have "selectors (s ! i) = selectors (s' ! i)"
      using eq that len by (metis nth_map)
    then show ?thesis by (cases "s ! i"; cases "s' ! i") simp
  qed
  then show ?thesis unfolding reset_all using len by (intro nth_equalityI) simp_all
qed

lemma finalize_selectors:
  "map selectors (fst (snd (finalize e q cb st))) = map selectors (fst st)"
  by (auto simp: finalize_eq Let_def split: option.splits)

lemma finalizeAll_selectors:
  "map selectors (fst (snd (finalizeAll es q cb st))) = map selectors (fst st)"
proof (induction es arbitrary: st)
  case Nil
  then show ?case by simp
next
  case (Cons e es)
  obtain r1 st1 where e1: "finalize e q cb st = (r1, st1)" by (cases "finalize e q cb st")
  obtain r2 st2 where e2: "finalizeAll es q cb st1 = (r2, st2)" by (cases "finalizeAll es q cb st1")
  have "map selectors (fst st1) = map selectors (fst st)"
    using finalize_selectors [of e q cb st] e1 by simp
  moreover have "map selectors (fst st2) = map selectors (fst st1)"
    using Cons.IH [of st1] e2 by simp
  ultimately show ?case by (simp add: e1 e2)
qed

lemma match_selectors:
  "noNestedListContexts M \<Longrightarrow> map selectors (fst (snd (match M q cb st))) = map selectors (fst st)"
  by (simp add: match_probes finalizeAll_selectors)


lemma addSelectablesAll_addresses:
  "e \<in> set (entries (fst (addSelectablesAll batches))) \<Longrightarrow> listContext e = Some a
    \<Longrightarrow> a < length (snd (addSelectablesAll batches))"
proof (induction batches arbitrary: e a rule: rev_induct)
  case Nil
  then show ?case by simp
next
  case (snoc b batches)
  obtain sels ctx where b: "b = (sels, ctx)" by (cases b)
  let ?M = "fst (addSelectablesAll batches)" and ?store = "snd (addSelectablesAll batches)"
  from snoc.prems(1) have "e \<in> set (entries ?M)
      \<or> e \<in> (\<lambda>s. SelectorContext s ctx (if length sels > 1 then Some (length ?store) else None)) ` set sels"
    using entries_addSelectables [of ?M sels ctx ?store] by (auto simp: b addSelectablesAll_snoc)
  then show ?case
  proof
    assume "e \<in> set (entries ?M)"
    then have "a < length ?store" using snoc.prems(2) by (rule snoc.IH)
    then show ?thesis by (simp add: b addSelectablesAll_snoc addSelectables_store)
  next
    assume "e \<in> (\<lambda>s. SelectorContext s ctx (if length sels > 1 then Some (length ?store) else None)) ` set sels"
    then show ?thesis
      using snoc.prems(2) by (auto simp: b addSelectablesAll_snoc addSelectables_store split: if_splits)
  qed
qed

text \<open>
  C9: on a matcher built by \<open>addSelectables\<close>, \<open>match\<close> leaves the list contexts of
  the store in place and changes only their \<open>alreadyMatched\<close> flags; every entry of the
  index holds an address of the store whose flag the reset at the start of a top-level
  \<open>match\<close> clears; so \<open>match(q2)\<close> after \<open>match(q1)\<close> returns the boolean, the store
  and the callback invocations that \<open>match(q2)\<close> returns on the matcher as built.
\<close>

theorem match_after_match:
  "addSelectablesAll batches = (M, store) \<and> match M q1 cb1 (store, log) = (r1, (store1, log1))
    \<longrightarrow> map selectors store1 = map selectors store
        \<and> (\<forall>e\<in>set (entries M). \<forall>a. listContext e = Some a \<longrightarrow>
              a < length store1
              \<and> \<not> alreadyMatched (fold (setAlreadyMatched False) (listContexts M) store1 ! a))
        \<and> match M q2 cb2 (store1, []) = match M q2 cb2 (store, [])"
proof (intro impI, elim conjE, intro conjI ballI allI impI)
  assume reg: "addSelectablesAll batches = (M, store)"
    and m1: "match M q1 cb1 (store, log) = (r1, (store1, log1))"
  have nested: "noNestedListContexts M" and lcs: "listContexts M = [0..<length store]"
    using addSelectablesAll_invariant [of batches] reg by simp_all
  show sel: "map selectors store1 = map selectors store"
    using match_selectors [OF nested, of q1 cb1 "(store, log)"] m1 by simp
  then have len: "length store1 = length store" by (rule map_eq_imp_length_eq)
  show "match M q2 cb2 (store1, []) = match M q2 cb2 (store, [])"
    using reset_all_cong [OF sel] by (simp add: match_probes [OF nested] lcs len)
  fix e a assume e: "e \<in> set (entries M)" and a: "listContext e = Some a"
  have "a < length store"
    using addSelectablesAll_addresses [of e batches a] e a reg by simp
  then show "a < length store1" using len by simp
  then show "\<not> alreadyMatched (fold (setAlreadyMatched False) (listContexts M) store1 ! a)"
    using reset_all [of store1] by (simp add: lcs len [symmetric])
qed


theorem match_after_match_witness:
  "addSelectablesAll [([CssSelector None [''a''] [] [], CssSelector None [''b''] [] []], Some (1::nat))]
     = (SelectorMatcher [] []
          [(''a'', [SelectorContext (CssSelector None [''a''] [] []) (Some 1) (Some 0)]),
           (''b'', [SelectorContext (CssSelector None [''b''] [] []) (Some 1) (Some 0)])]
          [] [] [] [0],
        [\<lparr>selectors = [CssSelector None [''a''] [] [], CssSelector None [''b''] [] []],
           alreadyMatched = False\<rparr>])
   \<and> match (SelectorMatcher [] []
          [(''a'', [SelectorContext (CssSelector None [''a''] [] []) (Some 1) (Some 0)]),
           (''b'', [SelectorContext (CssSelector None [''b''] [] []) (Some 1) (Some 0)])]
          [] [] [] [0])
        (CssSelector None [''a'', ''b''] [] []) True
        ([\<lparr>selectors = [CssSelector None [''a''] [] [], CssSelector None [''b''] [] []],
            alreadyMatched = False\<rparr>], [])
     = (True,
        [\<lparr>selectors = [CssSelector None [''a''] [] [], CssSelector None [''b''] [] []],
           alreadyMatched = True\<rparr>],
        [SelectorContext (CssSelector None [''a''] [] []) (Some (1::nat)) (Some 0)])
   \<and> match (SelectorMatcher [] []
          [(''a'', [SelectorContext (CssSelector None [''a''] [] []) (Some 1) (Some 0)]),
           (''b'', [SelectorContext (CssSelector None [''b''] [] []) (Some 1) (Some 0)])]
          [] [] [] [0])
        (CssSelector None [''b''] [] []) True
        ([\<lparr>selectors = [CssSelector None [''a''] [] [], CssSelector None [''b''] [] []],
            alreadyMatched = True\<rparr>], [])
     = (True,
        [\<lparr>selectors = [CssSelector None [''a''] [] [], CssSelector None [''b''] [] []],
           alreadyMatched = True\<rparr>],
        [SelectorContext (CssSelector None [''b''] [] []) (Some (1::nat)) (Some 0)])"
proof -
  let ?sa = "CssSelector None [''a''] [] []" and ?sb = "CssSelector None [''b''] [] []"
  let ?M = "SelectorMatcher [] []
          [(''a'', [SelectorContext ?sa (Some (1::nat)) (Some 0)]),
           (''b'', [SelectorContext ?sb (Some 1) (Some 0)])]
          [] [] [] [0]"
  let ?store = "[\<lparr>selectors = [?sa, ?sb], alreadyMatched = False\<rparr>]"
  let ?store1 = "[\<lparr>selectors = [?sa, ?sb], alreadyMatched = True\<rparr>]"
  have reg: "addSelectablesAll [([?sa, ?sb], Some (1::nat))] = (?M, ?store)"
    by code_simp
  have m1: "match ?M (CssSelector None [''a'', ''b''] [] []) True (?store, [])
      = (True, ?store1, [SelectorContext ?sa (Some 1) (Some 0)])"
    by code_simp
  have m2: "match ?M ?sb True (?store, [])
      = (True, ?store1, [SelectorContext ?sb (Some 1) (Some 0)])"
    by code_simp
  have "match ?M ?sb True (?store1, []) = match ?M ?sb True (?store, [])"
    using match_after_match [of "[([?sa, ?sb], Some (1::nat))]" ?M ?store
        "CssSelector None [''a'', ''b''] [] []" True "[]" True ?store1
        "[SelectorContext ?sa (Some 1) (Some 0)]" ?sb True] reg m1
    by blast
  with reg m1 m2 show ?thesis by simp
qed

lemma finalizeAll_callback_irrelevant:
  "fst (finalizeAll es q True (s, l)) = fst (finalizeAll es q False (s, l'))"
proof (induction es arbitrary: s l l')
  case Nil
  then show ?case by simp
next
  case (Cons e es)
  define matched where "matched = isAlreadyMatched (listContext e) s"
  define result where "result = (notSelectors (selector e) = [] \<or> matched \<or> \<not> notMatches e q)"
  have b: "finalize e q False (s, l') = (result, (s, l'))"
    by (simp add: finalize_eq Let_def matched_def result_def)
  show ?case
  proof (cases "result \<and> \<not> matched")
    case True
    then have "fst (finalize e q True (s, l))"
      by (auto simp: finalize_eq Let_def matched_def result_def)
    then show ?thesis using True b by (simp add: split_beta)
  next
    case False
    then have a: "finalize e q True (s, l) = (result, (s, l))"
      by (auto simp: finalize_eq Let_def matched_def result_def)
    show ?thesis using Cons.IH [of s l l'] by (simp add: a b split_beta)
  qed
qed

text \<open>
  C8: on a matcher built by \<open>addSelectables\<close>, \<open>match\<close> returns the same boolean with
  and without a callback. The boolean is the \<open>\<or>\<close> of the results of \<open>finalize\<close> over
  the entries probed; \<open>finalize\<close> returns \<open>true\<close> without a callback invocation on an
  entry whose list context is already matched, and \<open>false\<close> on an entry not already
  matched whose not-matcher matches the query.
\<close>

theorem match_result_without_callback:
  "addSelectablesAll batches = (M, store)
    \<longrightarrow> fst (match M q True (store', log)) = fst (match M q False (store', log'))
        \<and> match M q cb st =
            finalizeAll (probes M q) q cb (fold (setAlreadyMatched False) (listContexts M) (fst st), snd st)
        \<and> (\<forall>e s l. isAlreadyMatched (listContext e) s \<longrightarrow> finalize e q cb (s, l) = (True, (s, l)))
        \<and> (\<forall>e s l. \<not> isAlreadyMatched (listContext e) s \<and> notSelectors (selector e) \<noteq> [] \<and> notMatches e q
              \<longrightarrow> finalize e q cb (s, l) = (False, (s, l)))"
proof (intro impI conjI allI)
  assume reg: "addSelectablesAll batches = (M, store)"
  have nested: "noNestedListContexts M"
    using addSelectablesAll_invariant [of batches] reg by simp
  show "fst (match M q True (store', log)) = fst (match M q False (store', log'))"
    by (simp add: match_probes [OF nested] finalizeAll_callback_irrelevant [of _ _ _ log log'])
  show "match M q cb st =
      finalizeAll (probes M q) q cb (fold (setAlreadyMatched False) (listContexts M) (fst st), snd st)"
    by (rule match_probes [OF nested])
next
  fix e s l
  assume "isAlreadyMatched (listContext e) s"
  then show "finalize e q cb (s, l) = (True, (s, l))"
    by (simp add: finalize_eq Let_def)
next
  fix e s l
  assume "\<not> isAlreadyMatched (listContext e) s \<and> notSelectors (selector e) \<noteq> [] \<and> notMatches e q"
  then show "finalize e q cb (s, l) = (False, (s, l))"
    by (simp add: finalize_eq Let_def)
qed


theorem match_result_without_callback_witness:
  "addSelectablesAll [([CssSelector None [''a''] [] [], CssSelector None [''b''] [] []], Some (1::nat))]
     = (SelectorMatcher [] []
          [(''a'', [SelectorContext (CssSelector None [''a''] [] []) (Some 1) (Some 0)]),
           (''b'', [SelectorContext (CssSelector None [''b''] [] []) (Some 1) (Some 0)])]
          [] [] [] [0],
        [\<lparr>selectors = [CssSelector None [''a''] [] [], CssSelector None [''b''] [] []],
           alreadyMatched = False\<rparr>])
   \<and> fst (match (SelectorMatcher [] []
          [(''a'', [SelectorContext (CssSelector None [''a''] [] []) (Some 1) (Some 0)]),
           (''b'', [SelectorContext (CssSelector None [''b''] [] []) (Some (1::nat)) (Some 0)])]
          [] [] [] [0])
        (CssSelector None [''a'', ''b''] [] []) True
        ([\<lparr>selectors = [CssSelector None [''a''] [] [], CssSelector None [''b''] [] []],
            alreadyMatched = False\<rparr>], []))
   \<and> fst (match (SelectorMatcher [] []
          [(''a'', [SelectorContext (CssSelector None [''a''] [] []) (Some 1) (Some 0)]),
           (''b'', [SelectorContext (CssSelector None [''b''] [] []) (Some (1::nat)) (Some 0)])]
          [] [] [] [0])
        (CssSelector None [''a'', ''b''] [] []) False
        ([\<lparr>selectors = [CssSelector None [''a''] [] [], CssSelector None [''b''] [] []],
            alreadyMatched = False\<rparr>], []))"
proof -
  let ?sa = "CssSelector None [''a''] [] []" and ?sb = "CssSelector None [''b''] [] []"
  let ?M = "SelectorMatcher [] []
          [(''a'', [SelectorContext ?sa (Some (1::nat)) (Some 0)]),
           (''b'', [SelectorContext ?sb (Some 1) (Some 0)])]
          [] [] [] [0]"
  let ?store = "[\<lparr>selectors = [?sa, ?sb], alreadyMatched = False\<rparr>]"
  let ?q = "CssSelector None [''a'', ''b''] [] []"
  have reg: "addSelectablesAll [([?sa, ?sb], Some (1::nat))] = (?M, ?store)"
    by code_simp
  have m1: "fst (match ?M ?q True (?store, []))"
    by code_simp
  have "fst (match ?M ?q True (?store, [])) = fst (match ?M ?q False (?store, []))"
    using match_result_without_callback [of "[([?sa, ?sb], Some (1::nat))]" ?M ?store ?q ?store "[]" "[]"] reg
    by blast
  with reg m1 show ?thesis by simp
qed



subsection \<open>Evaluating probes on small matchers\<close>

lemma finalizeAll_without_callback:
  "finalizeAll es q False st =
     ((\<exists>e\<in>set es. notSelectors (selector e) = [] \<or> isAlreadyMatched (listContext e) (fst st)
          \<or> \<not> notMatches e q), st)"
  by (induction es) (auto simp: finalize_eq Let_def)

lemma finalizeAll_no_notSelectors:
  "\<forall>e\<in>set es. notSelectors (selector e) = [] \<Longrightarrow> fst (finalizeAll es q cb st) = (es \<noteq> [])"
proof (induction es arbitrary: st)
  case Nil
  then show ?case by simp
next
  case (Cons e es)
  then have "fst (finalize e q cb st)" by (simp add: finalize_eq Let_def)
  then show ?case by (simp add: split_beta)
qed

lemma noNestedListContexts_no_partial [simp]:
  "noNestedListContexts (SelectorMatcher em [] cm [] am [] lcs)"
  by simp

lemma terminalProbes_Nil [simp]: "terminalProbes (Some []) name = []"
  by (cases name) (simp_all add: terminalProbes_def)

lemma terminalProbes_None [simp]: "terminalProbes None name = []"
  by (simp add: terminalProbes_def)

lemma partialProbes_Nil [simp]: "partialProbes (Some []) name q = []"
  by (cases name) (simp_all add: partialProbes_def)

lemma partialProbes_None [simp]: "partialProbes None name q = []"
  by (simp add: partialProbes_def)

lemma concat_map_Nil [simp]: "concat (map (\<lambda>x. []) xs) = []"
  by (induction xs) simp_all

subsection \<open>Negation\<close>

lemma probes_element_only:
  "probes (SelectorMatcher [(el, es)] [] [] [] [] [] lcs) q
     = (if element q = Some el then es else []) @ (if element q \<noteq> None \<and> el = ''*'' then es else [])"
  by (cases "element q") (simp_all add: probes_eq classProbes_def attrProbes_def terminalProbes_def)

lemma probes_class_only:
  "set (probes (SelectorMatcher [] [] [(c, es)] [] [] [] lcs) q)
     = (if c \<in> set (classNames q) \<or> (c = ''*'' \<and> classNames q \<noteq> []) then set es else {})"
  by (auto simp: probes_eq classProbes_def attrProbes_def terminalProbes_def split: if_splits)

text \<open>
  C2: with the one selector parsed from \<open>input:not(.disabled)\<close> registered, \<open>match\<close>
  returns \<open>false\<close> and invokes no callback for every query with element \<open>input\<close> whose
  class names contain \<open>disabled\<close>, and returns \<open>true\<close> for the query with element
  \<open>input\<close> and the class names \<open>["enabled"]\<close>.
\<close>

theorem not_selector_excludes:
  "parse ''input:not(.disabled)'' = Inr sels \<and> addSelectablesAll [(sels, ctx)] = (M, store)
    \<longrightarrow> (\<forall>q. element q = Some ''input'' \<and> ''disabled'' \<in> set (classNames q)
                \<longrightarrow> match M q cb (store, []) = (False, (store, [])))
        \<and> fst (match M (CssSelector (Some ''input'') [''enabled''] [] []) cb (store, []))"
proof (intro impI, elim conjE)
  assume p: "parse ''input:not(.disabled)'' = Inr sels" and reg: "addSelectablesAll [(sels, ctx)] = (M, store)"
  define n0 where "n0 = CssSelector None [''disabled''] [] []"
  define s0 where "s0 = CssSelector (Some ''input'') [] [] [n0]"
  define e where "e = SelectorContext s0 ctx None"
  have "parse ''input:not(.disabled)'' = Inr [s0]" unfolding s0_def n0_def by code_simp
  with p have sels: "sels = [s0]" by simp
  have M: "M = SelectorMatcher [(''input'', [e])] [] [] [] [] [] []" and store: "store = []"
    using reg unfolding sels
    by (simp_all add: addSelectablesAll_def addSelectables_def addSelectable_def s0_def e_def
        new_SelectorMatcher_def addTerminal_def)
  have nm: "createNotMatcher [n0]
      = (SelectorMatcher [] [] [(''disabled'', [SelectorContext n0 None None])] [] [] [] [], [])"
    by (simp add: createNotMatcher_def addSelectables_def addSelectable_def n0_def
        new_SelectorMatcher_def addTerminal_def)
  have excl: "notMatches e q \<longleftrightarrow> ''disabled'' \<in> set (classNames q)" for q
  proof -
    have "notMatches e q = fst (match (fst (createNotMatcher [n0] :: 'a SelectorMatcher \<times> _)) q False
        (snd (createNotMatcher [n0] :: 'a SelectorMatcher \<times> _), []))"
      by (simp add: notMatches_def e_def s0_def split_beta)
    also have "\<dots> \<longleftrightarrow> ''disabled'' \<in> set (classNames q)"
      unfolding nm by (simp add: match_probes finalizeAll_without_callback probes_class_only n0_def)
    finally show ?thesis .
  qed
  have run: "match M q cb (store, []) = finalize e q cb ([], [])" if "element q = Some ''input''" for q
    using that by (simp add: M store match_probes probes_element_only split_beta)
  show "(\<forall>q. element q = Some ''input'' \<and> ''disabled'' \<in> set (classNames q)
                \<longrightarrow> match M q cb (store, []) = (False, (store, [])))
        \<and> fst (match M (CssSelector (Some ''input'') [''enabled''] [] []) cb (store, []))"
  proof (intro conjI allI impI)
    fix q assume q: "element q = Some ''input'' \<and> ''disabled'' \<in> set (classNames q)"
    then have "finalize e q cb ([], []) = (False, ([], []))"
      using excl [of q] by (simp add: finalize_eq Let_def e_def s0_def isAlreadyMatched_def)
    then show "match M q cb (store, []) = (False, (store, []))"
      using run [of q] q by (simp add: store)
  next
    have "\<not> notMatches e (CssSelector (Some ''input'') [''enabled''] [] [])"
      by (simp add: excl)
    then have "fst (finalize e (CssSelector (Some ''input'') [''enabled''] [] []) cb ([], []))"
      by (simp add: finalize_eq Let_def)
    then show "fst (match M (CssSelector (Some ''input'') [''enabled''] [] []) cb (store, []))"
      by (simp add: run)
  qed
qed


theorem not_selector_excludes_witness:
  "parse ''input:not(.disabled)'' = Inr [CssSelector (Some ''input'') [] [] [CssSelector None [''disabled''] [] []]]
   \<and> addSelectablesAll [([CssSelector (Some ''input'') [] [] [CssSelector None [''disabled''] [] []]], Some (1::nat))]
       = (SelectorMatcher
            [(''input'', [SelectorContext (CssSelector (Some ''input'') [] [] [CssSelector None [''disabled''] [] []])
                            (Some 1) None])] [] [] [] [] [] [], [])
   \<and> match (SelectorMatcher
            [(''input'', [SelectorContext (CssSelector (Some ''input'') [] [] [CssSelector None [''disabled''] [] []])
                            (Some (1::nat)) None])] [] [] [] [] [] [])
         (CssSelector (Some ''input'') [''big'', ''disabled''] [(''type'', ''text'')] []) True ([], [])
       = (False, ([], []))
   \<and> fst (match (SelectorMatcher
            [(''input'', [SelectorContext (CssSelector (Some ''input'') [] [] [CssSelector None [''disabled''] [] []])
                            (Some (1::nat)) None])] [] [] [] [] [] [])
         (CssSelector (Some ''input'') [''enabled''] [] []) True ([], []))"
proof -
  let ?s0 = "CssSelector (Some ''input'') [] [] [CssSelector None [''disabled''] [] []]"
  let ?M = "SelectorMatcher [(''input'', [SelectorContext ?s0 (Some (1::nat)) None])] [] [] [] [] [] []"
  let ?q = "CssSelector (Some ''input'') [''big'', ''disabled''] [(''type'', ''text'')] []"
  have p: "parse ''input:not(.disabled)'' = Inr [?s0]" by code_simp
  have reg: "addSelectablesAll [([?s0], Some (1::nat))] = (?M, [])" by code_simp
  have "element ?q = Some ''input'' \<and> ''disabled'' \<in> set (classNames ?q)" by simp
  with not_selector_excludes [of "[?s0]" "Some (1::nat)" ?M "[]" True] p reg
  have "match ?M ?q True ([], []) = (False, ([], []))
      \<and> fst (match ?M (CssSelector (Some ''input'') [''enabled''] [] []) True ([], []))"
    by blast
  with p reg show ?thesis by simp
qed

subsection \<open>A selector without constraints\<close>

text \<open>
  C4 as stated fails: the selector parsed from the empty text is registered, and
  \<open>match\<close> returns \<open>false\<close> without a callback invocation.
\<close>

theorem unconstrained_selector_counterexample:
  "parse [] = Inr [CssSelector None [] [] []]
   \<and> addSelectablesAll [([CssSelector None [] [] []], Some (1::nat))] = (new_SelectorMatcher, [])
   \<and> match new_SelectorMatcher (CssSelector (Some ''div'') [''a''] [(''b'', ''c'')] []) True ([], [])
       = (False, ([], [] :: nat SelectorContext list))"
  by code_simp

lemma probes_new [simp]: "probes new_SelectorMatcher q = []"
  by (simp add: probes_eq new_SelectorMatcher_def classProbes_def attrProbes_def)

text \<open>
  C4, amended: \<open>_addSelectable\<close> adds no entry for a selector without element, class
  name and attribute and leaves the matcher as it is; a matcher holding only such a
  selector returns \<open>false\<close> and invokes no callback for every query.
\<close>

theorem unconstrained_selector_never_matches:
  "\<not> truthy (element s) \<and> classNames s = [] \<and> attrs s = []
    \<longrightarrow> addSelectable (M :: 'c SelectorMatcher) s ctx lc = M
        \<and> addSelectablesAll [([s], ctx)] = (new_SelectorMatcher, [])
        \<and> match (new_SelectorMatcher :: 'c SelectorMatcher) q cb (store, log) = (False, (store, log))"
proof (intro impI, elim conjE, intro conjI)
  assume s: "\<not> truthy (element s)" "classNames s = []" "attrs s = []"
  show add: "addSelectable M s ctx lc = M" for M :: "'c SelectorMatcher" and lc
    using s by (auto simp: addSelectable_def truthy_def split: option.splits)
  show "addSelectablesAll [([s], ctx)] = (new_SelectorMatcher, [])"
    by (simp add: addSelectablesAll_def addSelectables_def add)
  show "match new_SelectorMatcher q cb (store, log) = (False, (store, log))"
    by (simp add: match_probes new_SelectorMatcher_def probes_new [unfolded new_SelectorMatcher_def])
qed

theorem unconstrained_selector_never_matches_witness:
  "\<not> truthy (element (CssSelector None [] [] [])) \<and> classNames (CssSelector None [] [] []) = []
   \<and> attrs (CssSelector None [] [] []) = []
   \<and> addSelectablesAll [([CssSelector None [] [] []], Some (1::nat))] = (new_SelectorMatcher, [])
   \<and> match new_SelectorMatcher (CssSelector (Some ''div'') [] [] []) True ([], [])
       = (False, ([], [] :: nat SelectorContext list))"
  using unconstrained_selector_never_matches [where 'c = nat, of "CssSelector None [] [] []" new_SelectorMatcher
      "Some 1" None "CssSelector (Some ''div'') [] [] []" True "[]" "[]"]
  by (simp add: truthy_def)


subsection \<open>Attributes: presence and value\<close>

text \<open>
  C6 as stated fails on the key \<open>*\<close>, which every terminal lookup adds: the registered
  selector \<open>[required=*]\<close> is matched by a query whose value for \<open>required\<close> is empty.
\<close>

theorem attribute_wildcard_counterexample:
  "parse ''[required=*]'' = Inr [CssSelector None [] [(''required'', ''*'')] []]
   \<and> addSelectablesAll [([CssSelector None [] [(''required'', ''*'')] []], Some (1::nat))]
       = (SelectorMatcher [] [] [] []
            [(''required'', [(''*'', [SelectorContext (CssSelector None [] [(''required'', ''*'')] []) (Some 1) None])])]
            [] [], [])
   \<and> match (SelectorMatcher [] [] [] []
            [(''required'', [(''*'', [SelectorContext (CssSelector None [] [(''required'', ''*'')] []) (Some 1) None])])]
            [] [])
         (CssSelector None [] [(''required'', [])] []) True ([], [])
       = (True, ([], [SelectorContext (CssSelector None [] [(''required'', ''*'')] []) (Some (1::nat)) None]))"
  by code_simp

lemma probes_one_attribute:
  "probes (SelectorMatcher [] [] [] [] [(n, [(v, [e])])] [] lcs) q \<noteq> []
     \<longleftrightarrow> (\<exists>w. (n, w) \<in> set (attrs q) \<and> (v = [] \<or> v = w \<or> v = ''*''))"
proof -
  have a: "attrProbes (SelectorMatcher [] [] [] [] [(n, [(v, [e])])] [] lcs) q (n', w) \<noteq> []
      \<longleftrightarrow> n' = n \<and> (v = [] \<or> v = w \<or> v = ''*'')" for n' w
    by (auto simp: attrProbes_def terminalProbes_def)
  let ?M = "SelectorMatcher [] [] [] [] [(n, [(v, [e])])] [] lcs"
  have "probes ?M q \<noteq> [] \<longleftrightarrow> (\<exists>x\<in>set (attrs q). attrProbes ?M q x \<noteq> [])"
    by (simp add: probes_eq classProbes_def)
  also have "\<dots> \<longleftrightarrow> (\<exists>n' w. (n', w) \<in> set (attrs q) \<and> attrProbes ?M q (n', w) \<noteq> [])"
    by auto
  also have "\<dots> \<longleftrightarrow> (\<exists>w. (n, w) \<in> set (attrs q) \<and> (v = [] \<or> v = w \<or> v = ''*''))"
    unfolding a by blast
  finally show ?thesis .
qed

lemma partialProbes_single:
  "partialProbes (Some [(k, N)]) (Some n) q = (if n = k then probes N q else [])"
  by (simp add: partialProbes_def)

lemma probes_two_attributes:
  "probes (SelectorMatcher [] [] [] [] []
      [(n1, [(v1, SelectorMatcher [] [] [] [] [(n2, [(v2, [e])])] [] [])])] lcs) q \<noteq> []
     \<longleftrightarrow> (\<exists>w. (n1, w) \<in> set (attrs q) \<and> (v1 = [] \<or> v1 = w))
         \<and> (\<exists>w. (n2, w) \<in> set (attrs q) \<and> (v2 = [] \<or> v2 = w \<or> v2 = ''*''))"
proof -
  let ?N = "SelectorMatcher [] [] [] [] [(n2, [(v2, [e])])] [] []"
  have a: "attrProbes (SelectorMatcher [] [] [] [] [] [(n1, [(v1, ?N)])] lcs) q (n', w) \<noteq> []
      \<longleftrightarrow> n' = n1 \<and> (v1 = [] \<or> v1 = w) \<and> probes ?N q \<noteq> []" for n' w
    by (auto simp: attrProbes_def partialProbes_single)
  let ?M = "SelectorMatcher [] [] [] [] [] [(n1, [(v1, ?N)])] lcs"
  have "probes ?M q \<noteq> [] \<longleftrightarrow> (\<exists>x\<in>set (attrs q). attrProbes ?M q x \<noteq> [])"
    by (simp add: probes_eq [of ?M] classProbes_def)
  also have "\<dots> \<longleftrightarrow> (\<exists>n' w. (n', w) \<in> set (attrs q) \<and> attrProbes ?M q (n', w) \<noteq> [])"
    by auto
  also have "\<dots> \<longleftrightarrow> (\<exists>w. (n1, w) \<in> set (attrs q) \<and> (v1 = [] \<or> v1 = w)) \<and> probes ?N q \<noteq> []"
    unfolding a by blast
  finally show ?thesis by (simp add: probes_one_attribute)
qed

text \<open>
  C6, amended: a registered selector with the single attribute \<open>[n=v]\<close> matches a query
  exactly when the query holds an attribute \<open>n\<close> whose value \<open>w\<close> satisfies
  \<open>v = ""\<close> (presence only), \<open>v = w\<close>, or \<open>v = "*"\<close>. So \<open>[required]\<close> matches
  every query carrying \<open>required\<close>, \<open>[required=yes]\<close> matches only a query with the
  value \<open>yes\<close>, and a query with an empty value satisfies only the presence-only and
  the \<open>*\<close> registrations. In a partial map (a registered attribute that is not the
  last one) the query value \<open>w\<close> reaches the keys \<open>""\<close> and \<open>w\<close> only.
\<close>

theorem attribute_presence_and_value:
  "(addSelectablesAll [([CssSelector None [] [(n, v)] []], ctx)] = (M, store)
      \<longrightarrow> fst (match M q cb (store, []))
            = (\<exists>w. (n, w) \<in> set (attrs q) \<and> (v = [] \<or> v = w \<or> v = ''*'')))
   \<and> (addSelectablesAll [([CssSelector None [] [(n1, v1), (n2, v2)] []], ctx)] = (M2, store2)
      \<longrightarrow> fst (match M2 q cb (store2, []))
            = ((\<exists>w. (n1, w) \<in> set (attrs q) \<and> (v1 = [] \<or> v1 = w))
               \<and> (\<exists>w. (n2, w) \<in> set (attrs q) \<and> (v2 = [] \<or> v2 = w \<or> v2 = ''*''))))
   \<and> parse ''[required]'' = Inr [CssSelector None [] [(''required'', [])] []]
   \<and> parse ''[required=yes]'' = Inr [CssSelector None [] [(''required'', ''yes'')] []]"
proof (intro conjI impI)
  assume reg: "addSelectablesAll [([CssSelector None [] [(n, v)] []], ctx)] = (M, store)"
  define e where "e = SelectorContext (CssSelector None [] [(n, v)] []) ctx None"
  have M: "M = SelectorMatcher [] [] [] [] [(n, [(v, [e])])] [] []" and store: "store = []"
    using reg
    by (simp_all add: addSelectablesAll_def addSelectables_def addSelectable_def e_def
        new_SelectorMatcher_def addTerminal_def)
  have "\<forall>x\<in>set (probes M q). notSelectors (selector x) = []"
  proof
    fix x assume "x \<in> set (probes M q)"
    then have "x = e"
      unfolding M
      by (auto simp: probes_eq [of "SelectorMatcher [] [] [] [] [(n, [(v, [e])])] [] []"]
          classProbes_def attrProbes_def terminalProbes_def split: if_splits)
    then show "notSelectors (selector x) = []" by (simp add: e_def)
  qed
  then have "fst (match M q cb (store, [])) = (probes M q \<noteq> [])"
    by (simp add: match_probes M finalizeAll_no_notSelectors)
  then show "fst (match M q cb (store, []))
      = (\<exists>w. (n, w) \<in> set (attrs q) \<and> (v = [] \<or> v = w \<or> v = ''*''))"
    by (simp add: M probes_one_attribute)
next
  assume reg: "addSelectablesAll [([CssSelector None [] [(n1, v1), (n2, v2)] []], ctx)] = (M2, store2)"
  define e where "e = SelectorContext (CssSelector None [] [(n1, v1), (n2, v2)] []) ctx None"
  let ?N = "SelectorMatcher [] [] [] [] [(n2, [(v2, [e])])] [] []"
  have M: "M2 = SelectorMatcher [] [] [] [] [] [(n1, [(v1, ?N)])] []" and store: "store2 = []"
    using reg
    by (simp_all add: addSelectablesAll_def addSelectables_def addSelectable_def e_def
        new_SelectorMatcher_def addTerminal_def addPartial_def Let_def)
  have nested: "noNestedListContexts M2" by (simp add: M)
  have "\<forall>x\<in>set (probes M2 q). notSelectors (selector x) = []"
  proof
    fix x assume "x \<in> set (probes M2 q)"
    moreover have "set (probes M2 q) \<subseteq> set (probes ?N q)"
      unfolding M
      by (auto simp: probes_eq [of "SelectorMatcher [] [] [] [] [] [(n1, [(v1, ?N)])] []"]
          classProbes_def attrProbes_def partialProbes_single split: if_splits)
    moreover have "set (probes ?N q) \<subseteq> {e}"
      by (auto simp: probes_eq [of ?N] classProbes_def attrProbes_def terminalProbes_def split: if_splits)
    ultimately have "x = e" by blast
    then show "notSelectors (selector x) = []" by (simp add: e_def)
  qed
  then have "fst (match M2 q cb (store2, [])) = (probes M2 q \<noteq> [])"
    by (simp add: match_probes [OF nested] finalizeAll_no_notSelectors)
  then show "fst (match M2 q cb (store2, []))
      = ((\<exists>w. (n1, w) \<in> set (attrs q) \<and> (v1 = [] \<or> v1 = w))
         \<and> (\<exists>w. (n2, w) \<in> set (attrs q) \<and> (v2 = [] \<or> v2 = w \<or> v2 = ''*'')))"
    by (simp add: M probes_two_attributes)
next
  show "parse ''[required]'' = Inr [CssSelector None [] [(''required'', [])] []]" by code_simp
  show "parse ''[required=yes]'' = Inr [CssSelector None [] [(''required'', ''yes'')] []]" by code_simp
qed


theorem attribute_presence_and_value_witness:
  "addSelectablesAll [([CssSelector None [] [(''required'', ''yes'')] []], Some (1::nat))]
     = (SelectorMatcher [] [] [] []
          [(''required'', [(''yes'', [SelectorContext (CssSelector None [] [(''required'', ''yes'')] []) (Some 1) None])])]
          [] [], [])
   \<and> fst (match (SelectorMatcher [] [] [] []
          [(''required'', [(''yes'', [SelectorContext (CssSelector None [] [(''required'', ''yes'')] []) (Some (1::nat)) None])])]
          [] [])
        (CssSelector (Some ''input'') [] [(''required'', ''yes'')] []) True ([], []))
   \<and> \<not> fst (match (SelectorMatcher [] [] [] []
          [(''required'', [(''yes'', [SelectorContext (CssSelector None [] [(''required'', ''yes'')] []) (Some (1::nat)) None])])]
          [] [])
        (CssSelector (Some ''input'') [] [(''required'', [])] []) True ([], []))
   \<and> addSelectablesAll [([CssSelector None [] [(''a'', []), (''b'', ''x'')] []], Some (1::nat))]
     = (SelectorMatcher [] [] [] [] []
          [(''a'', [([], SelectorMatcher [] [] [] []
              [(''b'', [(''x'', [SelectorContext (CssSelector None [] [(''a'', []), (''b'', ''x'')] []) (Some 1) None])])]
              [] [])])] [], [])
   \<and> fst (match (SelectorMatcher [] [] [] [] []
          [(''a'', [([], SelectorMatcher [] [] [] []
              [(''b'', [(''x'', [SelectorContext (CssSelector None [] [(''a'', []), (''b'', ''x'')] []) (Some (1::nat)) None])])]
              [] [])])] [])
        (CssSelector None [] [(''b'', ''x''), (''a'', ''y'')] []) True ([], []))"
proof -
  let ?s1 = "CssSelector None [] [(''required'', ''yes'')] []"
  let ?M1 = "SelectorMatcher [] [] [] [] [(''required'', [(''yes'', [SelectorContext ?s1 (Some (1::nat)) None])])] [] []"
  let ?s2 = "CssSelector None [] [(''a'', []), (''b'', ''x'')] []"
  let ?M2 = "SelectorMatcher [] [] [] [] []
          [(''a'', [([], SelectorMatcher [] [] [] []
              [(''b'', [(''x'', [SelectorContext ?s2 (Some (1::nat)) None])])] [] [])])] []"
  let ?q1 = "CssSelector (Some ''input'') [] [(''required'', ''yes'')] []"
  let ?q1' = "CssSelector (Some ''input'') [] [(''required'', [])] []"
  let ?q2 = "CssSelector None [] [(''b'', ''x''), (''a'', ''y'')] []"
  have reg1: "addSelectablesAll [([?s1], Some (1::nat))] = (?M1, [])" by code_simp
  have reg2: "addSelectablesAll [([?s2], Some (1::nat))] = (?M2, [])" by code_simp
  have a: "fst (match ?M1 ?q1 True ([], []))"
    using attribute_presence_and_value [of "''required''" "''yes''" "Some (1::nat)" ?M1 "[]" ?q1 True] reg1
    by simp
  have b: "\<not> fst (match ?M1 ?q1' True ([], []))"
    using attribute_presence_and_value [of "''required''" "''yes''" "Some (1::nat)" ?M1 "[]" ?q1' True] reg1
    by simp
  have c: "fst (match ?M2 ?q2 True ([], []))"
    using attribute_presence_and_value [of _ _ "Some (1::nat)" _ _ ?q2 True "''a''" "[]" "''b''" "''x''" ?M2 "[]"] reg2
    by auto
  from reg1 reg2 a b c show ?thesis by simp
qed


subsection \<open>One callback for each batch of selectors\<close>


lemma set_probes:
  "set (probes M q) =
     set (terminalProbes (Some (elementMap M)) (element q))
     \<union> set (partialProbes (Some (elementPartialMap M)) (element q) q)
     \<union> (\<Union>c\<in>set (classNames q). set (classProbes M q c))
     \<union> (\<Union>a\<in>set (attrs q). set (attrProbes M q a))"
  by (subst probes_eq) auto

lemma set_attrProbes:
  "set (attrProbes M q (n, w)) =
     (if w \<noteq> [] then set (terminalProbes (map_of (attrValueMap M) n) (Some [])) else {})
     \<union> set (terminalProbes (map_of (attrValueMap M) n) (Some w))
     \<union> (if w \<noteq> [] then set (partialProbes (map_of (attrValuePartialMap M) n) (Some []) q) else {})
     \<union> set (partialProbes (map_of (attrValuePartialMap M) n) (Some w) q)"
  by (auto simp: attrProbes_def)

lemma map_of_update: "map_of (AList.update k v m) k' = (if k' = k then Some v else map_of m k')"
  by (simp add: update_conv')


lemma terminalProbes_addTerminal:
  "set (terminalProbes (Some (addTerminal m k e)) name)
     = set (terminalProbes (Some m) name)
       \<union> (if name = Some k \<or> (k = ''*'' \<and> name \<noteq> None) then {e} else {})"
proof (cases name)
  case None
  then show ?thesis by (simp add: terminalProbes_def)
next
  case (Some n)
  show ?thesis
    unfolding Some
    by (cases "map_of m k"; cases "map_of m n"; cases "map_of m ''*''")
      (auto simp: terminalProbes_def addTerminal_def map_of_update)
qed

lemma partialProbes_update:
  assumes "set (probes N q) = set (probes (addPartial m k) q) \<union> X"
  shows "set (partialProbes (Some (AList.update k N m)) name q)
     = set (partialProbes (Some m) name q) \<union> (if name = Some k then X else {})"
proof (cases name)
  case None
  then show ?thesis by (simp add: partialProbes_def)
next
  case (Some n)
  show ?thesis
  proof (cases "n = k")
    case True
    then show ?thesis
      using assms by (cases "map_of m k") (simp_all add: Some partialProbes_def map_of_update addPartial_def)
  next
    case False
    then show ?thesis by (simp add: Some partialProbes_def map_of_update)
  qed
qed

lemma attr_terminalProbes:
  "set (terminalProbes
          (map_of (AList.update k (addTerminal (case map_of am k of None \<Rightarrow> [] | Some m \<Rightarrow> m) v e) am) n) name)
     = set (terminalProbes (map_of am n) name)
       \<union> (if n = k \<and> (name = Some v \<or> (v = ''*'' \<and> name \<noteq> None)) then {e} else {})"
proof (cases "n = k")
  case True
  then show ?thesis
    by (cases "map_of am k") (simp_all add: map_of_update terminalProbes_addTerminal)
next
  case False
  then show ?thesis by (simp add: map_of_update)
qed

lemma attr_partialProbes:
  assumes "set (probes N q)
      = set (probes (addPartial (case map_of apm k of None \<Rightarrow> [] | Some m \<Rightarrow> m) v) q) \<union> X"
  shows "set (partialProbes
          (map_of (AList.update k (AList.update v N (case map_of apm k of None \<Rightarrow> [] | Some m \<Rightarrow> m)) apm) n)
          name q)
     = set (partialProbes (map_of apm n) name q) \<union> (if n = k \<and> name = Some v then X else {})"
proof (cases "n = k")
  case True
  show ?thesis
  proof (cases "map_of apm k")
    case None
    then show ?thesis
      using True assms partialProbes_update [of N q "[]" v X name]
      by (simp add: map_of_update)
  next
    case (Some pvm)
    then show ?thesis
      using True assms partialProbes_update [of N q pvm v X name] by (simp add: map_of_update)
  qed
next
  case False
  then show ?thesis by (simp add: map_of_update)
qed

text \<open>
  What a change of the maps of a matcher adds to the entries probed for a query.
\<close>

lemma probes_delta:
  assumes et: "\<And>name. set (terminalProbes (Some (elementMap M')) name)
        = set (terminalProbes (Some (elementMap M)) name) \<union> (if ET name then X else {})"
    and ep: "\<And>name. set (partialProbes (Some (elementPartialMap M')) name q)
        = set (partialProbes (Some (elementPartialMap M)) name q) \<union> (if EP name then X else {})"
    and ct: "\<And>name. set (terminalProbes (Some (classMap M')) name)
        = set (terminalProbes (Some (classMap M)) name) \<union> (if CT name then X else {})"
    and cp: "\<And>name. set (partialProbes (Some (classPartialMap M')) name q)
        = set (partialProbes (Some (classPartialMap M)) name q) \<union> (if CP name then X else {})"
    and at: "\<And>n name. set (terminalProbes (map_of (attrValueMap M') n) name)
        = set (terminalProbes (map_of (attrValueMap M) n) name) \<union> (if AT n name then X else {})"
    and ap: "\<And>n name. set (partialProbes (map_of (attrValuePartialMap M') n) name q)
        = set (partialProbes (map_of (attrValuePartialMap M) n) name q) \<union> (if AP n name then X else {})"
  shows "set (probes M' q) = set (probes M q)
      \<union> (if ET (element q) \<or> EP (element q)
            \<or> (\<exists>c\<in>set (classNames q). CT (Some c) \<or> CP (Some c))
            \<or> (\<exists>a\<in>set (attrs q).
                  (snd a \<noteq> [] \<and> (AT (fst a) (Some []) \<or> AP (fst a) (Some [])))
                  \<or> AT (fst a) (Some (snd a)) \<or> AP (fst a) (Some (snd a)))
          then X else {})"
proof -
  define cond where "cond c \<longleftrightarrow> CT (Some c) \<or> CP (Some c)" for c
  define conda where "conda a \<longleftrightarrow> (snd a \<noteq> [] \<and> (AT (fst a) (Some []) \<or> AP (fst a) (Some [])))
                  \<or> AT (fst a) (Some (snd a)) \<or> AP (fst a) (Some (snd a))" for a
  have c: "set (classProbes M' q c) = set (classProbes M q c) \<union> (if cond c then X else {})" for c
    by (simp add: classProbes_def ct cp cond_def) blast
  have a: "set (attrProbes M' q a) = set (attrProbes M q a) \<union> (if conda a then X else {})" for a
    by (cases "snd a = []") (auto simp: attrProbes_def at ap conda_def)
  define A where "A = set (terminalProbes (Some (elementMap M)) (element q))"
  define B where "B = set (partialProbes (Some (elementPartialMap M)) (element q) q)"
  define C where "C c = set (classProbes M q c)" for c
  define D where "D a = set (attrProbes M q a)" for a
  have "set (probes M' q) =
      (A \<union> (if ET (element q) then X else {})) \<union> (B \<union> (if EP (element q) then X else {}))
      \<union> (\<Union>c\<in>set (classNames q). C c \<union> (if cond c then X else {}))
      \<union> (\<Union>a\<in>set (attrs q). D a \<union> (if conda a then X else {}))"
    unfolding set_probes [of M'] c a et ep A_def B_def C_def D_def ..
  also have "\<dots> = (A \<union> B \<union> (\<Union>c\<in>set (classNames q). C c) \<union> (\<Union>a\<in>set (attrs q). D a))
      \<union> (if ET (element q) \<or> EP (element q) \<or> (\<exists>c\<in>set (classNames q). cond c)
            \<or> (\<exists>a\<in>set (attrs q). conda a) then X else {})"
    by (auto split: if_splits)
  also have "A \<union> B \<union> (\<Union>c\<in>set (classNames q). C c) \<union> (\<Union>a\<in>set (attrs q). D a) = set (probes M q)"
    unfolding set_probes [of M] A_def B_def C_def D_def ..
  finally show ?thesis unfolding cond_def conda_def .
qed

text \<open>
  The query carries a constraint of a registered selector. A constraint that is not the
  last one of the selector is a key of a partial map and is looked up by the values of the
  query alone; the last one is a key of a terminal map, where the key \<open>*\<close> is found for
  every value probed. A registered attribute value that is empty is found for every value
  of the attribute.
\<close>

definition elementCarried :: "CssSelector \<Rightarrow> bool \<Rightarrow> string \<Rightarrow> bool" where
  "elementCarried q isTerminal el =
     (element q = Some el \<or> (isTerminal \<and> el = ''*'' \<and> element q \<noteq> None))"

definition classCarried :: "CssSelector \<Rightarrow> bool \<Rightarrow> string \<Rightarrow> bool" where
  "classCarried q isTerminal className =
     (className \<in> set (classNames q) \<or> (isTerminal \<and> className = ''*'' \<and> classNames q \<noteq> []))"

definition attrCarried :: "CssSelector \<Rightarrow> bool \<Rightarrow> string \<times> string \<Rightarrow> bool" where
  "attrCarried q isTerminal a =
     (\<exists>p\<in>set (attrs q). fst p = fst a
        \<and> (snd a = snd p \<or> snd a = [] \<or> (isTerminal \<and> snd a = ''*'')))"

fun attrsCarried :: "CssSelector \<Rightarrow> (string \<times> string) list \<Rightarrow> bool" where
  "attrsCarried q [] = True"
| "attrsCarried q (a # rest) = (attrCarried q (rest = []) a \<and> attrsCarried q rest)"

fun classNamesCarried :: "CssSelector \<Rightarrow> string list \<Rightarrow> (string \<times> string) list \<Rightarrow> bool" where
  "classNamesCarried q [] ats = True"
| "classNamesCarried q (className # rest) ats =
     (classCarried q (length ats = 0 \<and> rest = []) className \<and> classNamesCarried q rest ats)"

text \<open>
  The query carries every constraint of a registered selector that has at least one: its
  element, its class names and its attributes, in the order and with the last one terminal
  as \<open>_addSelectable\<close> inserts them.
\<close>

definition containsSelector :: "CssSelector \<Rightarrow> CssSelector \<Rightarrow> bool" where
  "containsSelector q s =
     ((truthy (element s) \<or> classNames s \<noteq> [] \<or> attrs s \<noteq> [])
      \<and> (case element s of
            None \<Rightarrow> True
          | Some el \<Rightarrow> el = [] \<or> elementCarried q (length (attrs s) = 0 \<and> length (classNames s) = 0) el)
      \<and> classNamesCarried q (classNames s) (attrs s)
      \<and> attrsCarried q (attrs s))"

lemma probes_addAttrs:
  "set (probes (addAttrs M ats e) q)
     = set (probes M q) \<union> (if ats \<noteq> [] \<and> attrsCarried q ats then {e} else {})"
proof (induction M ats e rule: addAttrs.induct)
  case (1 matcher selectable)
  then show ?case by simp
next
  case (2 matcher name "value" rest selectable)
  obtain em epm cm cpm am apm lcs where M: "matcher = SelectorMatcher em epm cm cpm am apm lcs"
    by (cases matcher)
  show ?case
  proof (cases "rest = []")
    case True
    define tvm where "tvm = (case map_of am name of None \<Rightarrow> [] | Some m \<Rightarrow> m)"
    define M' where "M' = SelectorMatcher em epm cm cpm (AList.update name (addTerminal tvm value selectable) am) apm lcs"
    have eq: "addAttrs (SelectorMatcher em epm cm cpm am apm lcs) ((name, value) # rest) selectable = M'"
      using True by (simp add: Let_def tvm_def M'_def)
    have "set (probes M' q) = set (probes (SelectorMatcher em epm cm cpm am apm lcs) q)
      \<union> (if False \<or> False \<or> (\<exists>c\<in>set (classNames q). False \<or> False)
            \<or> (\<exists>a\<in>set (attrs q).
                  (snd a \<noteq> [] \<and> ((fst a = name \<and> (Some [] = Some value \<or> (value = ''*'' \<and> Some ([]::string) \<noteq> None))) \<or> False))
                  \<or> (fst a = name \<and> (Some (snd a) = Some value \<or> (value = ''*'' \<and> Some (snd a) \<noteq> None))) \<or> False)
          then {selectable} else {})"
      by (rule probes_delta [where ET = "\<lambda>_. False" and EP = "\<lambda>_. False" and CT = "\<lambda>_. False"
            and CP = "\<lambda>_. False" and AP = "\<lambda>_ _. False"
            and AT = "\<lambda>n nm. n = name \<and> (nm = Some value \<or> (value = ''*'' \<and> nm \<noteq> None))"])
        (simp_all add: M'_def tvm_def attr_terminalProbes)
    also have "(False \<or> False \<or> (\<exists>c\<in>set (classNames q). False \<or> False)
            \<or> (\<exists>a\<in>set (attrs q).
                  (snd a \<noteq> [] \<and> ((fst a = name \<and> (Some [] = Some value \<or> (value = ''*'' \<and> Some ([]::string) \<noteq> None))) \<or> False))
                  \<or> (fst a = name \<and> (Some (snd a) = Some value \<or> (value = ''*'' \<and> Some (snd a) \<noteq> None))) \<or> False))
        \<longleftrightarrow> attrCarried q True (name, value)"
      by (auto simp: attrCarried_def)
    finally show ?thesis
      unfolding M eq using True by simp
  next
    case False
    define pvm where "pvm = (case map_of apm name of None \<Rightarrow> [] | Some m \<Rightarrow> m)"
    define nested where "nested = addAttrs (addPartial pvm value) rest selectable"
    define M' where "M' = SelectorMatcher em epm cm cpm am (AList.update name (AList.update value nested pvm) apm) lcs"
    define X where "X = (if attrsCarried q rest then {selectable} else {})"
    have ih: "set (probes nested q) = set (probes (addPartial pvm value) q) \<union> X"
      unfolding nested_def pvm_def X_def using 2 [OF False refl refl] False by (simp add: M)
    have eq: "addAttrs (SelectorMatcher em epm cm cpm am apm lcs) ((name, value) # rest) selectable = M'"
      using False by (simp add: Let_def pvm_def nested_def M'_def)
    have "set (probes M' q) = set (probes (SelectorMatcher em epm cm cpm am apm lcs) q)
      \<union> (if False \<or> False \<or> (\<exists>c\<in>set (classNames q). False \<or> False)
            \<or> (\<exists>a\<in>set (attrs q).
                  (snd a \<noteq> [] \<and> (False \<or> (fst a = name \<and> Some [] = Some value)))
                  \<or> False \<or> (fst a = name \<and> Some (snd a) = Some value))
          then X else {})"
      by (rule probes_delta [where ET = "\<lambda>_. False" and EP = "\<lambda>_. False" and CT = "\<lambda>_. False"
            and CP = "\<lambda>_. False" and AT = "\<lambda>_ _. False"
            and AP = "\<lambda>n nm. n = name \<and> nm = Some value"])
        (simp_all add: M'_def attr_partialProbes [OF ih [unfolded pvm_def], folded pvm_def])
    also have "(False \<or> False \<or> (\<exists>c\<in>set (classNames q). False \<or> False)
            \<or> (\<exists>a\<in>set (attrs q).
                  (snd a \<noteq> [] \<and> (False \<or> (fst a = name \<and> Some [] = Some value)))
                  \<or> False \<or> (fst a = name \<and> Some (snd a) = Some value)))
        \<longleftrightarrow> attrCarried q False (name, value)"
      by (auto simp: attrCarried_def)
    finally show ?thesis
      unfolding M eq X_def using False by auto
  qed
qed


lemma probes_addClassNames:
  "set (probes (addClassNames M cs ats e) q)
     = set (probes M q)
       \<union> (if (cs \<noteq> [] \<or> ats \<noteq> []) \<and> classNamesCarried q cs ats \<and> attrsCarried q ats then {e} else {})"
proof (induction M cs ats e rule: addClassNames.induct)
  case (1 matcher ats selectable)
  then show ?case by (simp add: probes_addAttrs)
next
  case (2 matcher className rest ats selectable)
  obtain em epm cm cpm am apm lcs where M: "matcher = SelectorMatcher em epm cm cpm am apm lcs"
    by (cases matcher)
  show ?case
  proof (cases "length ats = 0 \<and> rest = []")
    case True
    define M' where "M' = SelectorMatcher em epm (addTerminal cm className selectable) cpm am apm lcs"
    have eq: "addClassNames (SelectorMatcher em epm cm cpm am apm lcs) (className # rest) ats selectable = M'"
      using True by (simp add: M'_def)
    have "set (probes M' q) = set (probes (SelectorMatcher em epm cm cpm am apm lcs) q)
      \<union> (if False \<or> False
            \<or> (\<exists>c\<in>set (classNames q). (Some c = Some className \<or> (className = ''*'' \<and> Some c \<noteq> None)) \<or> False)
            \<or> (\<exists>a\<in>set (attrs q). (snd a \<noteq> [] \<and> (False \<or> False)) \<or> False \<or> False)
          then {selectable} else {})"
      by (rule probes_delta [where ET = "\<lambda>_. False" and EP = "\<lambda>_. False"
            and CT = "\<lambda>nm. nm = Some className \<or> (className = ''*'' \<and> nm \<noteq> None)"
            and CP = "\<lambda>_. False" and AT = "\<lambda>_ _. False" and AP = "\<lambda>_ _. False"])
        (simp_all add: M'_def terminalProbes_addTerminal)
    also have "(False \<or> False
            \<or> (\<exists>c\<in>set (classNames q). (Some c = Some className \<or> (className = ''*'' \<and> Some c \<noteq> None)) \<or> False)
            \<or> (\<exists>a\<in>set (attrs q). (snd a \<noteq> [] \<and> (False \<or> False)) \<or> False \<or> False))
        \<longleftrightarrow> classCarried q True className"
      by (cases "classNames q") (auto simp: classCarried_def)
    finally show ?thesis
      unfolding M eq using True by simp
  next
    case False
    define nested where "nested = addClassNames (addPartial cpm className) rest ats selectable"
    define M' where "M' = SelectorMatcher em epm cm (AList.update className nested cpm) am apm lcs"
    define X where "X = (if classNamesCarried q rest ats \<and> attrsCarried q ats then {selectable} else {})"
    from False have ne: "rest \<noteq> [] \<or> ats \<noteq> []" by auto
    have ih: "set (probes nested q) = set (probes (addPartial cpm className) q) \<union> X"
      unfolding nested_def X_def using 2 [OF False] ne by (simp add: M)
    have eq: "addClassNames (SelectorMatcher em epm cm cpm am apm lcs) (className # rest) ats selectable = M'"
      using False by (auto simp: Let_def nested_def M'_def)
    have "set (probes M' q) = set (probes (SelectorMatcher em epm cm cpm am apm lcs) q)
      \<union> (if False \<or> False
            \<or> (\<exists>c\<in>set (classNames q). False \<or> Some c = Some className)
            \<or> (\<exists>a\<in>set (attrs q). (snd a \<noteq> [] \<and> (False \<or> False)) \<or> False \<or> False)
          then X else {})"
      by (rule probes_delta [where ET = "\<lambda>_. False" and EP = "\<lambda>_. False" and CT = "\<lambda>_. False"
            and CP = "\<lambda>nm. nm = Some className" and AT = "\<lambda>_ _. False" and AP = "\<lambda>_ _. False"])
        (simp_all add: M'_def partialProbes_update [OF ih])
    also have "(False \<or> False
            \<or> (\<exists>c\<in>set (classNames q). False \<or> Some c = Some className)
            \<or> (\<exists>a\<in>set (attrs q). (snd a \<noteq> [] \<and> (False \<or> False)) \<or> False \<or> False))
        \<longleftrightarrow> classCarried q False className"
      by (auto simp: classCarried_def)
    finally show ?thesis
      unfolding M eq X_def using False by auto
  qed
qed

lemma probes_addSelectable:
  "set (probes (addSelectable M s ctx lc) q)
     = set (probes M q) \<union> (if containsSelector q s then {SelectorContext s ctx lc} else {})"
proof -
  obtain em epm cm cpm am apm lcs where M: "M = SelectorMatcher em epm cm cpm am apm lcs"
    by (cases M)
  define e where "e = SelectorContext s ctx lc"
  have "set (probes (addSelectable M s ctx lc) q)
     = set (probes M q) \<union> (if containsSelector q s then {e} else {})"
  proof (cases "truthy (element s)")
    case False
    then have eq: "addSelectable M s ctx lc = addClassNames M (classNames s) (attrs s) e"
      by (auto simp: addSelectable_def truthy_def e_def split: option.splits)
    from False have "containsSelector q s \<longleftrightarrow>
        (classNames s \<noteq> [] \<or> attrs s \<noteq> []) \<and> classNamesCarried q (classNames s) (attrs s)
        \<and> attrsCarried q (attrs s)"
      by (auto simp: containsSelector_def truthy_def split: option.splits)
    then show ?thesis unfolding eq probes_addClassNames by simp
  next
    case True
    then obtain el where el: "element s = Some el" "el \<noteq> []"
      by (auto simp: truthy_def split: option.splits)
    show ?thesis
    proof (cases "length (attrs s) = 0 \<and> length (classNames s) = 0")
      case True
      define M' where "M' = SelectorMatcher (addTerminal em el e) epm cm cpm am apm lcs"
      have eq: "addSelectable (SelectorMatcher em epm cm cpm am apm lcs) s ctx lc = M'"
        using True el by (simp add: addSelectable_def e_def M'_def)
      have "set (probes M' q) = set (probes (SelectorMatcher em epm cm cpm am apm lcs) q)
        \<union> (if (element q = Some el \<or> (el = ''*'' \<and> element q \<noteq> None)) \<or> False
              \<or> (\<exists>c\<in>set (classNames q). False \<or> False)
              \<or> (\<exists>a\<in>set (attrs q). (snd a \<noteq> [] \<and> (False \<or> False)) \<or> False \<or> False)
            then {e} else {})"
        by (rule probes_delta [where ET = "\<lambda>nm. nm = Some el \<or> (el = ''*'' \<and> nm \<noteq> None)"
              and EP = "\<lambda>_. False" and CT = "\<lambda>_. False"
              and CP = "\<lambda>_. False" and AT = "\<lambda>_ _. False" and AP = "\<lambda>_ _. False"])
          (simp_all add: M'_def terminalProbes_addTerminal)
      also have "((element q = Some el \<or> (el = ''*'' \<and> element q \<noteq> None)) \<or> False
              \<or> (\<exists>c\<in>set (classNames q). False \<or> False)
              \<or> (\<exists>a\<in>set (attrs q). (snd a \<noteq> [] \<and> (False \<or> False)) \<or> False \<or> False))
          \<longleftrightarrow> containsSelector q s"
        using True el by (auto simp: containsSelector_def elementCarried_def truthy_def)
      finally show ?thesis unfolding M eq .
    next
      case False
      define nested where "nested = addClassNames (addPartial epm el) (classNames s) (attrs s) e"
      define M' where "M' = SelectorMatcher em (AList.update el nested epm) cm cpm am apm lcs"
      define X where "X = (if classNamesCarried q (classNames s) (attrs s) \<and> attrsCarried q (attrs s)
          then {e} else {})"
      from False have ne: "classNames s \<noteq> [] \<or> attrs s \<noteq> []" by auto
      have ih: "set (probes nested q) = set (probes (addPartial epm el) q) \<union> X"
        unfolding nested_def X_def probes_addClassNames using ne by simp
      have eq: "addSelectable (SelectorMatcher em epm cm cpm am apm lcs) s ctx lc = M'"
        using False el by (auto simp: addSelectable_def e_def nested_def Let_def M'_def)
      have "set (probes M' q) = set (probes (SelectorMatcher em epm cm cpm am apm lcs) q)
        \<union> (if False \<or> element q = Some el
              \<or> (\<exists>c\<in>set (classNames q). False \<or> False)
              \<or> (\<exists>a\<in>set (attrs q). (snd a \<noteq> [] \<and> (False \<or> False)) \<or> False \<or> False)
            then X else {})"
        by (rule probes_delta [where ET = "\<lambda>_. False" and EP = "\<lambda>nm. nm = Some el"
              and CT = "\<lambda>_. False" and CP = "\<lambda>_. False" and AT = "\<lambda>_ _. False" and AP = "\<lambda>_ _. False"])
          (simp_all add: M'_def partialProbes_update [OF ih])
      also have "(if False \<or> element q = Some el
              \<or> (\<exists>c\<in>set (classNames q). False \<or> False)
              \<or> (\<exists>a\<in>set (attrs q). (snd a \<noteq> [] \<and> (False \<or> False)) \<or> False \<or> False)
            then X else {}) = (if containsSelector q s then {e} else {})"
        using False el ne by (auto simp: containsSelector_def elementCarried_def truthy_def X_def)
      finally show ?thesis unfolding M eq .
    qed
  qed
  then show ?thesis by (simp add: e_def)
qed

lemma probes_foldl_addSelectable:
  "set (probes (foldl (\<lambda>m c. addSelectable m c ctx lc) M sels) q)
     = set (probes M q) \<union> (\<lambda>s. SelectorContext s ctx lc) ` {s \<in> set sels. containsSelector q s}"
proof (induction sels arbitrary: M)
  case Nil
  then show ?case by simp
next
  case (Cons s sels)
  show ?case
    by (simp add: Cons.IH probes_addSelectable) blast
qed

lemma probes_listContexts_upd:
  "probes (SelectorMatcher (elementMap M) (elementPartialMap M) (classMap M) (classPartialMap M)
      (attrValueMap M) (attrValuePartialMap M) l) q = probes M q"
proof -
  let ?M' = "SelectorMatcher (elementMap M) (elementPartialMap M) (classMap M) (classPartialMap M)
      (attrValueMap M) (attrValuePartialMap M) l"
  have c: "classProbes ?M' q = classProbes M q"
    by (rule ext) (simp add: classProbes_def)
  have a: "attrProbes ?M' q = attrProbes M q"
    by (rule ext) (simp add: attrProbes_def)
  show ?thesis
    by (simp add: probes_eq [of M] probes_eq [of ?M'] c a)
qed


lemma probes_addSelectables:
  "set (probes (fst (addSelectables M sels ctx store)) q)
     = set (probes M q)
       \<union> (\<lambda>s. SelectorContext s ctx (if length sels > 1 then Some (length store) else None))
           ` {s \<in> set sels. containsSelector q s}"
  by (simp add: addSelectables_def Let_def probes_foldl_addSelectable probes_listContexts_upd)

text \<open>
  The batches for which \<open>addSelectables\<close> creates a \<open>SelectorListContext\<close>, in the
  order of their addresses in the store.
\<close>

definition listBatches :: "(CssSelector list \<times> 'c option) list \<Rightarrow> (CssSelector list \<times> 'c option) list" where
  "listBatches batches = filter (\<lambda>b. length (fst b) > 1) batches"

lemma listBatches_snoc:
  "listBatches (batches @ [(sels, ctx)])
     = listBatches batches @ (if length sels > 1 then [(sels, ctx)] else [])"
  by (simp add: listBatches_def)

lemma addSelectablesAll_store_length:
  "length (snd (addSelectablesAll batches)) = length (listBatches batches)"
proof (induction batches rule: rev_induct)
  case Nil
  then show ?case by (simp add: listBatches_def)
next
  case (snoc b batches)
  obtain sels ctx where b: "b = (sels, ctx)" by (cases b)
  show ?case
    using snoc by (simp add: b addSelectablesAll_snoc addSelectables_store listBatches_snoc)
qed

lemma addSelectablesAll_entry_batch:
  "e \<in> set (entries (fst (addSelectablesAll batches))) \<Longrightarrow> listContext e = Some a
    \<Longrightarrow> a < length (listBatches batches)
        \<and> selector e \<in> set (fst (listBatches batches ! a)) \<and> cbContext e = snd (listBatches batches ! a)"
proof (induction batches arbitrary: e a rule: rev_induct)
  case Nil
  then show ?case by simp
next
  case (snoc b batches)
  obtain sels ctx where b: "b = (sels, ctx)" by (cases b)
  let ?M = "fst (addSelectablesAll batches)" and ?store = "snd (addSelectablesAll batches)"
  have len: "length ?store = length (listBatches batches)" by (rule addSelectablesAll_store_length)
  from snoc.prems(1) have "e \<in> set (entries ?M)
      \<or> e \<in> (\<lambda>s. SelectorContext s ctx (if length sels > 1 then Some (length ?store) else None)) ` set sels"
    using entries_addSelectables [of ?M sels ctx ?store] by (auto simp: b addSelectablesAll_snoc)
  then show ?case
  proof
    assume "e \<in> set (entries ?M)"
    then have "a < length (listBatches batches)
        \<and> selector e \<in> set (fst (listBatches batches ! a)) \<and> cbContext e = snd (listBatches batches ! a)"
      using snoc.prems(2) by (rule snoc.IH)
    then show ?thesis by (simp add: b listBatches_snoc nth_append)
  next
    assume "e \<in> (\<lambda>s. SelectorContext s ctx (if length sels > 1 then Some (length ?store) else None)) ` set sels"
    then obtain s where s: "s \<in> set sels"
      and e: "e = SelectorContext s ctx (if length sels > 1 then Some (length ?store) else None)"
      by blast
    from e snoc.prems(2) have gt: "length sels > 1" and a: "a = length (listBatches batches)"
      by (auto simp: len split: if_splits)
    show ?thesis using s e gt a by (simp add: b listBatches_snoc nth_append)
  qed
qed


lemma addSelectablesAll_probes:
  "a < length (listBatches batches) \<Longrightarrow> listBatches batches ! a = (sels, ctx) \<Longrightarrow> s \<in> set sels
    \<Longrightarrow> containsSelector q s
    \<Longrightarrow> SelectorContext s ctx (Some a) \<in> set (probes (fst (addSelectablesAll batches)) q)"
proof (induction batches rule: rev_induct)
  case Nil
  then show ?case by (simp add: listBatches_def)
next
  case (snoc b batches)
  obtain sels' ctx' where b: "b = (sels', ctx')" by (cases b)
  let ?M = "fst (addSelectablesAll batches)" and ?store = "snd (addSelectablesAll batches)"
  have len: "length ?store = length (listBatches batches)" by (rule addSelectablesAll_store_length)
  show ?case
  proof (cases "a < length (listBatches batches)")
    case True
    with snoc.prems(2) have "listBatches batches ! a = (sels, ctx)"
      by (simp add: b listBatches_snoc nth_append)
    then have "SelectorContext s ctx (Some a) \<in> set (probes ?M q)"
      using True snoc.prems(3,4) snoc.IH by blast
    then show ?thesis
      by (simp add: b addSelectablesAll_snoc probes_addSelectables)
  next
    case False
    with snoc.prems(1) have gt: "length sels' > 1" and a: "a = length (listBatches batches)"
      by (auto simp: b listBatches_snoc split: if_splits)
    with snoc.prems(2) have eq: "sels' = sels" "ctx' = ctx"
      by (simp_all add: b listBatches_snoc)
    show ?thesis
      using gt snoc.prems(3,4) by (simp add: b eq addSelectablesAll_snoc len a probes_addSelectables)
  qed
qed

lemma addSelectablesAll_probes_contained:
  "e \<in> set (probes (fst (addSelectablesAll batches)) q) \<Longrightarrow> containsSelector q (selector e)"
proof (induction batches rule: rev_induct)
  case Nil
  then show ?case by simp
next
  case (snoc b batches)
  obtain sels ctx where b: "b = (sels, ctx)" by (cases b)
  from snoc.prems have "e \<in> set (probes (fst (addSelectablesAll batches)) q)
      \<or> (\<exists>s. containsSelector q s \<and> selector e = s)"
    by (auto simp: b addSelectablesAll_snoc probes_addSelectables)
  then show ?case using snoc.IH by auto
qed

lemma partialProbes_entries:
  "(\<And>n N. map_of m n = Some N \<Longrightarrow> set (probes N q) \<subseteq> set (entries N))
    \<Longrightarrow> set (partialProbes (Some m) name q) \<subseteq> partialEntries m"
proof (cases name)
  case None
  then show ?thesis by (simp add: partialProbes_def)
next
  case (Some n)
  assume ih: "\<And>n N. map_of m n = Some N \<Longrightarrow> set (probes N q) \<subseteq> set (entries N)"
  show ?thesis
  proof (cases "map_of m n")
    case None
    then show ?thesis by (simp add: Some partialProbes_def)
  next
    case N: (Some N)
    have "set (probes N q) \<subseteq> set (entries N)" using N by (rule ih)
    also have "\<dots> \<subseteq> partialEntries m" using N by (rule map_of_partialEntries)
    finally show ?thesis by (simp add: Some N partialProbes_def)
  qed
qed

lemma terminalProbes_entries: "set (terminalProbes (Some m) name) \<subseteq> terminalEntries m"
proof (cases name)
  case None
  then show ?thesis by (simp add: terminalProbes_def)
next
  case (Some n)
  show ?thesis
    using set_map_of_terminalEntries [of m n] set_map_of_terminalEntries [of m "''*''"]
    by (simp add: Some terminalProbes_def)
qed


lemma probes_entries: "set (probes M q) \<subseteq> set (entries M)"
proof (induction "size M" arbitrary: M rule: less_induct)
  case less
  have ep: "set (partialProbes (Some (elementPartialMap M)) name q) \<subseteq> set (entries M)" for name
  proof -
    have "set (partialProbes (Some (elementPartialMap M)) name q) \<subseteq> partialEntries (elementPartialMap M)"
      by (rule partialProbes_entries) (rule less, rule nested_size(1))
    then show ?thesis using entries_fields(2) [of M] by blast
  qed
  have cp: "set (partialProbes (Some (classPartialMap M)) name q) \<subseteq> set (entries M)" for name
  proof -
    have "set (partialProbes (Some (classPartialMap M)) name q) \<subseteq> partialEntries (classPartialMap M)"
      by (rule partialProbes_entries) (rule less, rule nested_size(2))
    then show ?thesis using entries_fields(4) [of M] by blast
  qed
  have et: "set (terminalProbes (Some (elementMap M)) name) \<subseteq> set (entries M)" for name
    using terminalProbes_entries [of "elementMap M" name] entries_fields(1) [of M] by blast
  have ct: "set (terminalProbes (Some (classMap M)) name) \<subseteq> set (entries M)" for name
    using terminalProbes_entries [of "classMap M" name] entries_fields(3) [of M] by blast
  have at: "set (terminalProbes (map_of (attrValueMap M) n) name) \<subseteq> set (entries M)" for n name
  proof (cases "map_of (attrValueMap M) n")
    case None
    then show ?thesis by simp
  next
    case (Some tm)
    then show ?thesis
      using terminalProbes_entries [of tm name] entries_fields(5) [OF Some] by auto
  qed
  have ap: "set (partialProbes (map_of (attrValuePartialMap M) n) name q) \<subseteq> set (entries M)" for n name
  proof (cases "map_of (attrValuePartialMap M) n")
    case None
    then show ?thesis by simp
  next
    case (Some pm)
    have "set (partialProbes (Some pm) name q) \<subseteq> partialEntries pm"
      by (rule partialProbes_entries) (rule less, rule nested_size(3) [OF Some])
    then show ?thesis using entries_fields(6) [OF Some] by (auto simp: Some)
  qed
  have c: "set (classProbes M q c) \<subseteq> set (entries M)" for c
    using ct cp by (simp add: classProbes_def)
  have a: "set (attrProbes M q a) \<subseteq> set (entries M)" for a
  proof -
    obtain n w where a: "a = (n, w)" by (cases a)
    show ?thesis unfolding a set_attrProbes using at ap by (cases "w = []") simp_all
  qed
  show ?case
    unfolding set_probes using et ep c a by (intro Un_least UN_least)
qed



text \<open>
  The number of callback invocations made for the entries of the list context at an address.
\<close>

definition callbacksOf :: "nat \<Rightarrow> 'c SelectorContext list \<Rightarrow> nat" where
  "callbacksOf a log = length (filter (\<lambda>e. listContext e = Some a) log)"

definition groupInvariant :: "nat \<Rightarrow> 'c run \<Rightarrow> bool" where
  "groupInvariant a st =
     (a < length (fst st) \<and> callbacksOf a (snd st) = (if alreadyMatched (fst st ! a) then 1 else 0))"

lemma finalize_group:
  assumes "groupInvariant a st"
  shows "groupInvariant a (snd (finalize e q True st))
    \<and> (alreadyMatched (fst (snd (finalize e q True st)) ! a)
         \<longleftrightarrow> alreadyMatched (fst st ! a)
             \<or> (listContext e = Some a \<and> (notSelectors (selector e) = [] \<or> \<not> notMatches e q)))
    \<and> set (snd (snd (finalize e q True st))) \<subseteq> insert e (set (snd st))"
proof -
  obtain s l where st: "st = (s, l)" by (cases st)
  from assms have a: "a < length s" and cnt: "callbacksOf a l = (if alreadyMatched (s ! a) then 1 else 0)"
    by (simp_all add: groupInvariant_def st)
  show ?thesis
  proof (cases "listContext e")
    case None
    then show ?thesis
      using a cnt
      by (auto simp: st finalize_eq Let_def groupInvariant_def callbacksOf_def isAlreadyMatched_def)
  next
    case (Some b)
    show ?thesis
    proof (cases "b = a")
      case True
      then show ?thesis
        using a cnt Some
        by (auto simp: st finalize_eq Let_def groupInvariant_def callbacksOf_def isAlreadyMatched_def
            nth_setAlreadyMatched)
    next
      case False
      then show ?thesis
        using a cnt Some
        by (auto simp: st finalize_eq Let_def groupInvariant_def callbacksOf_def isAlreadyMatched_def
            nth_setAlreadyMatched)
    qed
  qed
qed

lemma finalizeAll_group:
  "groupInvariant a st \<Longrightarrow>
     groupInvariant a (snd (finalizeAll es q True st))
     \<and> (alreadyMatched (fst (snd (finalizeAll es q True st)) ! a)
          \<longleftrightarrow> alreadyMatched (fst st ! a)
              \<or> (\<exists>e\<in>set es. listContext e = Some a \<and> (notSelectors (selector e) = [] \<or> \<not> notMatches e q)))
     \<and> set (snd (snd (finalizeAll es q True st))) \<subseteq> set es \<union> set (snd st)"
proof (induction es arbitrary: st)
  case Nil
  then show ?case by simp
next
  case (Cons e es)
  define st1 where "st1 = snd (finalize e q True st)"
  have f: "groupInvariant a st1"
    "alreadyMatched (fst st1 ! a) \<longleftrightarrow> alreadyMatched (fst st ! a)
        \<or> (listContext e = Some a \<and> (notSelectors (selector e) = [] \<or> \<not> notMatches e q))"
    "set (snd st1) \<subseteq> insert e (set (snd st))"
    unfolding st1_def using finalize_group [OF Cons.prems, of e q] by simp_all
  define st2 where "st2 = snd (finalizeAll es q True st1)"
  have g: "groupInvariant a st2"
    "alreadyMatched (fst st2 ! a) \<longleftrightarrow> alreadyMatched (fst st1 ! a)
        \<or> (\<exists>e\<in>set es. listContext e = Some a \<and> (notSelectors (selector e) = [] \<or> \<not> notMatches e q))"
    "set (snd st2) \<subseteq> set es \<union> set (snd st1)"
    unfolding st2_def using Cons.IH [OF f(1)] by simp_all
  have eq: "snd (finalizeAll (e # es) q True st) = st2"
    by (simp add: st2_def st1_def split_beta)
  show ?case
    unfolding eq using f(2,3) g by auto
qed

text \<open>
  C1 as stated fails: the two selectors parsed from \<open>,\<close> have no constraint, so that
  every query satisfies both; registered in one batch they get a list context and no
  entry, and \<open>match\<close> invokes no callback.
\<close>

theorem unconstrained_batch_counterexample:
  "parse '','' = Inr [CssSelector None [] [] [], CssSelector None [] [] []]
   \<and> addSelectablesAll [([CssSelector None [] [] [], CssSelector None [] [] []], Some (1::nat))]
     = (SelectorMatcher [] [] [] [] [] [] [0],
        [\<lparr>selectors = [CssSelector None [] [] [], CssSelector None [] [] []], alreadyMatched = False\<rparr>])
   \<and> match (SelectorMatcher [] [] [] [] [] [] [0]) (CssSelector None [''a'', ''b''] [] []) True
        ([\<lparr>selectors = [CssSelector None [] [] [], CssSelector None [] [] []], alreadyMatched = False\<rparr>], [])
     = (False,
        [\<lparr>selectors = [CssSelector None [] [] [], CssSelector None [] [] []], alreadyMatched = False\<rparr>],
        [] :: nat SelectorContext list)
   \<and> callbacksOf 0 ([] :: nat SelectorContext list) = 0"
  by code_simp

text \<open>
  C1, amended: on a matcher built by \<open>addSelectables\<close>, take a batch of more than one
  selector, at address \<open>a\<close> of the store. One top-level \<open>match\<close> with a callback
  invokes the callback at most once for the entries of that batch, each invocation with a
  selector and the callback context of the batch. It invokes the callback exactly once if
  and only if the query carries the constraints of some selector of the batch (of two or
  more as well) that has at least one constraint and whose not-selectors do not match the
  query; otherwise it invokes no callback for the batch. Registering \<open>.a\<close> and \<open>.b\<close>
  in one batch and querying with class names \<open>a\<close> and \<open>b\<close> gives one invocation.
\<close>

theorem callback_once_per_batch:
  "addSelectablesAll batches = (M, store) \<and> a < length (listBatches batches)
    \<and> listBatches batches ! a = (sels, ctx) \<and> map selectors store' = map selectors store
    \<and> match M q True (store', []) = (r, (store1, log))
    \<longrightarrow> 1 < length sels
        \<and> callbacksOf a log \<le> 1
        \<and> (\<forall>e\<in>set log. listContext e = Some a \<longrightarrow> selector e \<in> set sels \<and> cbContext e = ctx)
        \<and> (callbacksOf a log = 1
             \<longleftrightarrow> (\<exists>s\<in>set sels. containsSelector q s
                    \<and> (notSelectors s = [] \<or> \<not> notMatches (SelectorContext s ctx (Some a)) q)))"
proof (intro impI, elim conjE, intro conjI ballI impI)
  assume reg: "addSelectablesAll batches = (M, store)"
    and a: "a < length (listBatches batches)"
    and batch: "listBatches batches ! a = (sels, ctx)"
    and sel: "map selectors store' = map selectors store"
    and m: "match M q True (store', []) = (r, (store1, log))"
  have nested: "noNestedListContexts M" and lcs: "listContexts M = [0..<length store]"
    using addSelectablesAll_invariant [of batches] reg by simp_all
  have len: "length store = length (listBatches batches)"
    using addSelectablesAll_store_length [of batches] reg by simp
  from sel have len': "length store' = length store" by (rule map_eq_imp_length_eq)
  define st0 :: "'a run" where "st0 = (map (\<lambda>c. c\<lparr>alreadyMatched := False\<rparr>) store', [])"
  have run: "finalizeAll (probes M q) q True st0 = (r, (store1, log))"
    using m reset_all [of store'] by (simp add: match_probes [OF nested] lcs len' st0_def)
  have inv0: "groupInvariant a st0"
    using a by (simp add: groupInvariant_def callbacksOf_def st0_def len len')
  have flag0: "\<not> alreadyMatched (fst st0 ! a)"
    using a by (simp add: st0_def len len')
  note grp = finalizeAll_group [OF inv0, of "probes M q" q, unfolded run]
  from grp have inv: "groupInvariant a (store1, log)" by simp
  from grp flag0 have flag: "alreadyMatched (store1 ! a) \<longleftrightarrow>
      (\<exists>e\<in>set (probes M q).
        listContext e = Some a \<and> (notSelectors (selector e) = [] \<or> \<not> notMatches e q))" by simp
  from grp have sub: "set log \<subseteq> set (probes M q)" by (simp add: st0_def)
  have "(sels, ctx) \<in> set (listBatches batches)"
    using nth_mem [OF a] batch by simp
  then show "1 < length sels" by (simp add: listBatches_def)
  show "callbacksOf a log \<le> 1"
    using inv by (simp add: groupInvariant_def)
  have entry: "selector e \<in> set sels \<and> cbContext e = ctx"
    if "e \<in> set (probes M q)" "listContext e = Some a" for e
  proof -
    from that(1) probes_entries [of M q] have "e \<in> set (entries (fst (addSelectablesAll batches)))"
      by (auto simp: reg)
    from addSelectablesAll_entry_batch [OF this that(2)] show ?thesis by (simp add: batch)
  qed
  {
    fix e assume e: "e \<in> set log" and l: "listContext e = Some a"
    from e sub have "e \<in> set (probes M q)" by blast
    from entry [OF this l]
    show "selector e \<in> set sels" and "cbContext e = ctx" by simp_all
  }
  have cnt: "callbacksOf a log = 1 \<longleftrightarrow> alreadyMatched (store1 ! a)"
    using inv by (simp add: groupInvariant_def)
  show "callbacksOf a log = 1
      \<longleftrightarrow> (\<exists>s\<in>set sels. containsSelector q s
            \<and> (notSelectors s = [] \<or> \<not> notMatches (SelectorContext s ctx (Some a)) q))"
    unfolding cnt flag
  proof
    assume "\<exists>e\<in>set (probes M q).
        listContext e = Some a \<and> (notSelectors (selector e) = [] \<or> \<not> notMatches e q)"
    then obtain e where e: "e \<in> set (probes M q)" "listContext e = Some a"
      and n: "notSelectors (selector e) = [] \<or> \<not> notMatches e q" by blast
    from entry [OF e] have s: "selector e \<in> set sels" and c: "cbContext e = ctx" by simp_all
    have eq: "e = SelectorContext (selector e) ctx (Some a)"
      using e(2) c by (cases e) simp
    have "containsSelector q (selector e)"
      using addSelectablesAll_probes_contained [of e batches q] e(1) by (simp add: reg)
    with s n eq show "\<exists>s\<in>set sels. containsSelector q s
        \<and> (notSelectors s = [] \<or> \<not> notMatches (SelectorContext s ctx (Some a)) q)"
      by (intro bexI [of _ "selector e"]) auto
  next
    assume "\<exists>s\<in>set sels. containsSelector q s
        \<and> (notSelectors s = [] \<or> \<not> notMatches (SelectorContext s ctx (Some a)) q)"
    then obtain s where s: "s \<in> set sels" "containsSelector q s"
      and n: "notSelectors s = [] \<or> \<not> notMatches (SelectorContext s ctx (Some a)) q" by blast
    have "SelectorContext s ctx (Some a) \<in> set (probes M q)"
      using addSelectablesAll_probes [OF a batch s] by (simp add: reg)
    with n show "\<exists>e\<in>set (probes M q).
        listContext e = Some a \<and> (notSelectors (selector e) = [] \<or> \<not> notMatches e q)"
      by force
  qed
qed

theorem callback_once_per_batch_witness:
  "addSelectablesAll [([CssSelector None [''a''] [] [], CssSelector None [''b''] [] []], Some (1::nat))]
     = (SelectorMatcher [] []
          [(''a'', [SelectorContext (CssSelector None [''a''] [] []) (Some 1) (Some 0)]),
           (''b'', [SelectorContext (CssSelector None [''b''] [] []) (Some 1) (Some 0)])]
          [] [] [] [0],
        [\<lparr>selectors = [CssSelector None [''a''] [] [], CssSelector None [''b''] [] []],
           alreadyMatched = False\<rparr>])
   \<and> listBatches [([CssSelector None [''a''] [] [], CssSelector None [''b''] [] []], Some (1::nat))] ! 0
     = ([CssSelector None [''a''] [] [], CssSelector None [''b''] [] []], Some 1)
   \<and> containsSelector (CssSelector None [''a'', ''b''] [] []) (CssSelector None [''a''] [] [])
   \<and> containsSelector (CssSelector None [''a'', ''b''] [] []) (CssSelector None [''b''] [] [])
   \<and> match (SelectorMatcher [] []
          [(''a'', [SelectorContext (CssSelector None [''a''] [] []) (Some 1) (Some 0)]),
           (''b'', [SelectorContext (CssSelector None [''b''] [] []) (Some 1) (Some 0)])]
          [] [] [] [0])
        (CssSelector None [''a'', ''b''] [] []) True
        ([\<lparr>selectors = [CssSelector None [''a''] [] [], CssSelector None [''b''] [] []],
            alreadyMatched = False\<rparr>], [])
     = (True,
        [\<lparr>selectors = [CssSelector None [''a''] [] [], CssSelector None [''b''] [] []],
           alreadyMatched = True\<rparr>],
        [SelectorContext (CssSelector None [''a''] [] []) (Some (1::nat)) (Some 0)])
   \<and> callbacksOf 0 [SelectorContext (CssSelector None [''a''] [] []) (Some (1::nat)) (Some 0)] = 1
   \<and> parse '':not(.x), :not(.y)''
     = Inr [CssSelector (Some ''*'') [] [] [CssSelector None [''x''] [] []],
            CssSelector (Some ''*'') [] [] [CssSelector None [''y''] [] []]]
   \<and> containsSelector (CssSelector (Some ''div'') [''a''] [] [])
        (CssSelector (Some ''*'') [] [] [CssSelector None [''x''] [] []])
   \<and> \<not> notMatches
          (SelectorContext (CssSelector (Some ''*'') [] [] [CssSelector None [''x''] [] []]) (Some (1::nat)) (Some 0))
          (CssSelector (Some ''div'') [''a''] [] [])
   \<and> match
        (fst (addSelectablesAll
          [([CssSelector (Some ''*'') [] [] [CssSelector None [''x''] [] []],
             CssSelector (Some ''*'') [] [] [CssSelector None [''y''] [] []]], Some (1::nat))]))
        (CssSelector (Some ''div'') [''a''] [] []) True
        (snd (addSelectablesAll
          [([CssSelector (Some ''*'') [] [] [CssSelector None [''x''] [] []],
             CssSelector (Some ''*'') [] [] [CssSelector None [''y''] [] []]], Some (1::nat))]), [])
     = (True,
        [\<lparr>selectors = [CssSelector (Some ''*'') [] [] [CssSelector None [''x''] [] []],
                        CssSelector (Some ''*'') [] [] [CssSelector None [''y''] [] []]],
           alreadyMatched = True\<rparr>],
        [SelectorContext (CssSelector (Some ''*'') [] [] [CssSelector None [''x''] [] []]) (Some 1) (Some 0)])
   \<and> callbacksOf 0
        [SelectorContext (CssSelector (Some ''*'') [] [] [CssSelector None [''x''] [] []]) (Some (1::nat)) (Some 0)]
       = 1"
proof -
  let ?sa = "CssSelector None [''a''] [] []" and ?sb = "CssSelector None [''b''] [] []"
  let ?M = "SelectorMatcher [] []
          [(''a'', [SelectorContext ?sa (Some (1::nat)) (Some 0)]),
           (''b'', [SelectorContext ?sb (Some 1) (Some 0)])]
          [] [] [] [0]"
  let ?store = "[\<lparr>selectors = [?sa, ?sb], alreadyMatched = False\<rparr>]"
  let ?store1 = "[\<lparr>selectors = [?sa, ?sb], alreadyMatched = True\<rparr>]"
  let ?q = "CssSelector None [''a'', ''b''] [] []"
  let ?log = "[SelectorContext ?sa (Some (1::nat)) (Some 0)]"
  have reg: "addSelectablesAll [([?sa, ?sb], Some (1::nat))] = (?M, ?store)"
    by code_simp
  have a: "0 < length (listBatches [([?sa, ?sb], Some (1::nat))])"
    by code_simp
  have batch: "listBatches [([?sa, ?sb], Some (1::nat))] ! 0 = ([?sa, ?sb], Some 1)"
    by code_simp
  have ca: "containsSelector ?q ?sa" and cb: "containsSelector ?q ?sb"
    by code_simp+
  have m: "match ?M ?q True (?store, []) = (True, ?store1, ?log)"
    by code_simp
  have ex: "\<exists>s\<in>set [?sa, ?sb]. containsSelector ?q s
      \<and> (notSelectors s = [] \<or> \<not> notMatches (SelectorContext s (Some (1::nat)) (Some 0)) ?q)"
    using ca by simp
  have one: "callbacksOf 0 ?log = 1"
    using callback_once_per_batch [of "[([?sa, ?sb], Some (1::nat))]" ?M ?store 0 "[?sa, ?sb]" "Some 1"
        ?store ?q True ?store1 ?log] reg a batch m ex
    by blast
  let ?sx = "CssSelector (Some ''*'') [] [] [CssSelector None [''x''] [] []]"
  let ?sy = "CssSelector (Some ''*'') [] [] [CssSelector None [''y''] [] []]"
  let ?qd = "CssSelector (Some ''div'') [''a''] [] []"
  let ?batches = "[([?sx, ?sy], Some (1::nat))]"
  let ?storen = "[\<lparr>selectors = [?sx, ?sy], alreadyMatched = True\<rparr>]"
  let ?logn = "[SelectorContext ?sx (Some (1::nat)) (Some 0)]"
  have p: "parse '':not(.x), :not(.y)'' = Inr [?sx, ?sy]"
    by code_simp
  have an: "0 < length (listBatches ?batches)"
    by code_simp
  have batchn: "listBatches ?batches ! 0 = ([?sx, ?sy], Some 1)"
    by code_simp
  have cx: "containsSelector ?qd ?sx"
    by code_simp
  have nx: "\<not> notMatches (SelectorContext ?sx (Some (1::nat)) (Some 0)) ?qd"
    by code_simp
  have mn: "match (fst (addSelectablesAll ?batches)) ?qd True (snd (addSelectablesAll ?batches), [])
      = (True, ?storen, ?logn)"
    by code_simp
  have exn: "\<exists>s\<in>set [?sx, ?sy]. containsSelector ?qd s
      \<and> (notSelectors s = [] \<or> \<not> notMatches (SelectorContext s (Some (1::nat)) (Some 0)) ?qd)"
    using cx nx by simp
  have onen: "callbacksOf 0 ?logn = 1"
    using callback_once_per_batch [of ?batches "fst (addSelectablesAll ?batches)"
        "snd (addSelectablesAll ?batches)" 0 "[?sx, ?sy]" "Some 1"
        "snd (addSelectablesAll ?batches)" ?qd True ?storen ?logn] an batchn mn exn
    by simp
  from reg batch ca cb m one p cx nx mn onen show ?thesis by simp
qed

end
